theory Spec2Isabelle
  imports Main
begin

section \<open>Strings\<close>

text \<open>
  A JavaScript string is modelled as a \<^typ>\<open>string\<close>, one \<^typ>\<open>char\<close> per code unit, and
  an index into it as a \<^typ>\<open>nat\<close>. A \<^typ>\<open>char\<close> is one of the 256 code units below
  \<open>0x100\<close>; of these \<open>toLowerCase\<close> maps the letters \<open>A\<close> to \<open>Z\<close> and the capital letters
  \<open>0xC0\<close> to \<open>0xDE\<close> (\<open>0xD7\<close>, the multiplication sign, apart), each to the code unit
  \<open>0x20\<close> above it.
\<close>

definition upperCaseLetters :: string where
  "upperCaseLetters =
     ''ABCDEFGHIJKLMNOPQRSTUVWXYZ'' @
     [CHR 0xC0, CHR 0xC1, CHR 0xC2, CHR 0xC3, CHR 0xC4, CHR 0xC5, CHR 0xC6, CHR 0xC7, CHR 0xC8,
      CHR 0xC9, CHR 0xCA, CHR 0xCB, CHR 0xCC, CHR 0xCD, CHR 0xCE, CHR 0xCF, CHR 0xD0, CHR 0xD1,
      CHR 0xD2, CHR 0xD3, CHR 0xD4, CHR 0xD5, CHR 0xD6, CHR 0xD8, CHR 0xD9, CHR 0xDA, CHR 0xDB,
      CHR 0xDC, CHR 0xDD, CHR 0xDE]"

definition lowerCaseLetters :: string where
  "lowerCaseLetters =
     ''abcdefghijklmnopqrstuvwxyz'' @
     [CHR 0xE0, CHR 0xE1, CHR 0xE2, CHR 0xE3, CHR 0xE4, CHR 0xE5, CHR 0xE6, CHR 0xE7, CHR 0xE8,
      CHR 0xE9, CHR 0xEA, CHR 0xEB, CHR 0xEC, CHR 0xED, CHR 0xEE, CHR 0xEF, CHR 0xF0, CHR 0xF1,
      CHR 0xF2, CHR 0xF3, CHR 0xF4, CHR 0xF5, CHR 0xF6, CHR 0xF8, CHR 0xF9, CHR 0xFA, CHR 0xFB,
      CHR 0xFC, CHR 0xFD, CHR 0xFE]"

definition toLowerCase_char :: "char \<Rightarrow> char" where
  "toLowerCase_char c =
     (case map_of (zip upperCaseLetters lowerCaseLetters) c of
        Some l \<Rightarrow> l
      | None \<Rightarrow> c)"

definition toLowerCase :: "string \<Rightarrow> string" where
  "toLowerCase s = map toLowerCase_char s"

text \<open>\<open>s.slice(a, b)\<close> for indices \<open>0 \<le> a\<close>, \<open>0 \<le> b\<close>: empty when \<open>b \<le> a\<close>.\<close>

definition slice :: "nat \<Rightarrow> nat \<Rightarrow> string \<Rightarrow> string" where
  "slice a b s = take (b - a) (drop a s)"

text \<open>\<open>s.slice(-n)\<close>: the last \<open>n\<close> code units; \<open>s.slice(-0)\<close> is \<open>s.slice(0)\<close>.\<close>

definition slice_last :: "nat \<Rightarrow> string \<Rightarrow> string" where
  "slice_last n s = (if n = 0 then s else drop (length s - n) s)"

text \<open>\<open>s.startsWith(p)\<close> and \<open>s.includes(sub)\<close>.\<close>

definition startsWith :: "string \<Rightarrow> string \<Rightarrow> bool" where
  "startsWith s p = (take (length p) s = p)"

fun str_includes :: "string \<Rightarrow> string \<Rightarrow> bool" where
  "str_includes [] sub = (sub = [])"
| "str_includes (c # cs) sub = (startsWith (c # cs) sub \<or> str_includes cs sub)"

section \<open>Regular expressions\<close>

text \<open>
  Every regular expression of the program is an alternation of sequences of greedy bounded
  repetitions \<open>[class]{lo,hi}\<close> of a character class. An item is the class with its two
  bounds, a sequence is a list of items, and a regular expression is the list of its
  alternatives. A match is reported as the number of code units each item consumed, from
  which the matched text and the capture groups are sliced.

  \<open>match_items\<close> is the backtracking matcher: an item first takes as many code units as
  it can (at most \<open>hi\<close>), the rest of the sequence is tried, and on failure the item gives
  one code unit back, down to \<open>lo\<close>.
\<close>

type_synonym item = "(char \<Rightarrow> bool) \<times> nat \<times> nat"
type_synonym regex = "item list list"

primrec first_some :: "('a \<Rightarrow> 'b option) \<Rightarrow> 'a list \<Rightarrow> 'b option" where
  "first_some f [] = None"
| "first_some f (x # xs) = (case f x of Some y \<Rightarrow> Some y | None \<Rightarrow> first_some f xs)"

primrec match_items :: "item list \<Rightarrow> string \<Rightarrow> nat list option" where
  "match_items [] s = Some []"
| "match_items (it # rest) s =
     (case it of (p, lo, hi) \<Rightarrow>
        first_some (\<lambda>n. map_option ((#) n) (match_items rest (drop n s)))
          (rev [lo ..< Suc (min hi (length (takeWhile p s)))]))"

text \<open>The alternatives are tried in order at one position.\<close>

definition match_here :: "regex \<Rightarrow> string \<Rightarrow> nat list option" where
  "match_here r s = first_some (\<lambda>items. match_items items s) r"

text \<open>The leftmost position of the string at which the expression matches.\<close>

fun re_search :: "regex \<Rightarrow> string \<Rightarrow> (nat \<times> nat list) option" where
  "re_search r [] = map_option (Pair 0) (match_here r [])"
| "re_search r (c # cs) =
     (case match_here r (c # cs) of
        Some ls \<Rightarrow> Some (0, ls)
      | None \<Rightarrow> map_option (\<lambda>(j, ls). (Suc j, ls)) (re_search r cs))"

text \<open>
  \<open>regex.exec(text)\<close> with \<open>lastIndex = i\<close>: the first match at an index \<open>\<ge> i\<close>, as the
  index and the item lengths; \<open>null\<close> is \<open>None\<close>. \<open>text.match(regex)\<close> of an expression
  without the \<open>g\<close> flag is \<open>regex_exec regex text 0\<close>.
\<close>

definition regex_exec :: "regex \<Rightarrow> string \<Rightarrow> nat \<Rightarrow> (nat \<times> nat list) option" where
  "regex_exec r s i =
     (if length s < i then None
      else map_option (\<lambda>(j, ls). (i + j, ls)) (re_search r (drop i s)))"

lemma first_some_Some:
  "first_some f xs = Some y \<Longrightarrow> \<exists>x \<in> set xs. f x = Some y"
  by (induction xs) (auto split: option.splits)

lemma match_items_sum_le:
  "match_items items s = Some ls \<Longrightarrow> sum_list ls \<le> length s"
proof (induction items arbitrary: s ls)
  case Nil
  then show ?case by simp
next
  case (Cons it rest)
  obtain p lo hi where it: "it = (p, lo, hi)" by (cases it)
  from Cons.prems it obtain n where
    n: "n \<in> set (rev [lo ..< Suc (min hi (length (takeWhile p s)))])"
    and m: "map_option ((#) n) (match_items rest (drop n s)) = Some ls"
    by (auto dest!: first_some_Some)
  from m obtain ls' where ls': "match_items rest (drop n s) = Some ls'" "ls = n # ls'"
    by auto
  from n have "n \<le> length (takeWhile p s)" by auto
  also have "\<dots> \<le> length s" by (rule length_takeWhile_le)
  finally have nl: "n \<le> length s" .
  from Cons.IH[OF ls'(1)] have "sum_list ls' \<le> length s - n" by simp
  with nl ls'(2) show ?case by simp
qed

lemma match_here_sum_le: "match_here r s = Some ls \<Longrightarrow> sum_list ls \<le> length s"
  unfolding match_here_def by (auto dest!: first_some_Some match_items_sum_le)

lemma re_search_bound:
  "re_search r s = Some (j, ls) \<Longrightarrow> j + sum_list ls \<le> length s"
proof (induction s arbitrary: j ls)
  case Nil
  then show ?case by (auto dest: match_here_sum_le)
next
  case (Cons c cs)
  show ?case
  proof (cases "match_here r (c # cs)")
    case (Some ls0)
    with Cons.prems have "j = 0" "ls = ls0" by auto
    with Some match_here_sum_le[of r "c # cs" ls0] show ?thesis by simp
  next
    case None
    with Cons.prems obtain j' where "re_search r cs = Some (j', ls)" "j = Suc j'"
      by (auto split: prod.splits)
    with Cons.IH[of j' ls] show ?thesis by simp
  qed
qed

lemma regex_exec_bound:
  "regex_exec r s i = Some (j, ls) \<Longrightarrow> i \<le> j \<and> j + sum_list ls \<le> length s"
  unfolding regex_exec_def
  by (auto split: if_splits prod.splits dest!: re_search_bound)

text \<open>
  The loop \<open>while ((match = regex.exec(text)) !== null)\<close> over an expression with the
  \<open>g\<close> flag: every match moves \<open>lastIndex\<close> to its end. An empty match would leave
  \<open>lastIndex\<close> where it is; no expression of the program matches the empty string, and that
  branch only closes the definition.
\<close>

function regex_exec_all :: "regex \<Rightarrow> string \<Rightarrow> nat \<Rightarrow> (nat \<times> nat list) list" where
  "regex_exec_all r s i =
     (case regex_exec r s i of
        None \<Rightarrow> []
      | Some (j, ls) \<Rightarrow>
          if sum_list ls = 0 then [] else (j, ls) # regex_exec_all r s (j + sum_list ls))"
  by pat_completeness auto
termination
proof (relation "measure (\<lambda>(r, s, i). Suc (length s) - i)")
  show "wf (measure (\<lambda>(r, s, i). Suc (length s) - i))" by simp
next
  fix r :: regex and s :: string and i :: nat and x2 :: "nat \<times> nat list"
    and j :: nat and ls :: "nat list"
  assume "regex_exec r s i = Some x2" "(j, ls) = x2" "sum_list ls \<noteq> 0"
  then have "regex_exec r s i = Some (j, ls)" by simp
  from regex_exec_bound[OF this] have "i \<le> j" "j + sum_list ls \<le> length s" by simp_all
  moreover from \<open>sum_list ls \<noteq> 0\<close> have "0 < sum_list ls" by (simp del: sum_list_eq_0_iff)
  ultimately have "Suc (length s) - (j + sum_list ls) < Suc (length s) - i" by arith
  then show "((r, s, j + sum_list ls), (r, s, i)) \<in> measure (\<lambda>(r, s, i). Suc (length s) - i)"
    by simp
qed

declare regex_exec_all.simps [simp del]

section \<open>Address utilities (utils/address.ts)\<close>

definition isHexDigit :: "char \<Rightarrow> bool" where
  "isHexDigit c = (c \<in> set ''0123456789abcdefABCDEF'')"

definition isChar :: "char \<Rightarrow> char \<Rightarrow> bool" where
  "isChar a c = (c = a)"

text \<open>Under the \<open>i\<close> flag the letter \<open>x\<close> of the pattern also accepts \<open>X\<close>.\<close>

definition isX :: "char \<Rightarrow> bool" where
  "isX c = (c = CHR ''x'' \<or> c = CHR ''X'')"

text \<open>\<open>/0x[a-fA-F0-9]{40}/gi\<close>\<close>

definition FULL_ADDRESS_REGEX :: regex where
  "FULL_ADDRESS_REGEX = [[(isChar CHR ''0'', 1, 1), (isX, 1, 1), (isHexDigit, 40, 40)]]"

definition normalizeAddress :: "string \<Rightarrow> string" where
  "normalizeAddress address = toLowerCase address"

record AddressMatch =
  address :: string
  fullMatch :: string
  startIndex :: nat
  endIndex :: nat
  isTruncated :: bool

definition findAddressesInText :: "string \<Rightarrow> AddressMatch list" where
  "findAddressesInText text =
     map (\<lambda>(index, ls).
            let match0 = slice index (index + sum_list ls) text
            in \<lparr> address = normalizeAddress match0,
                 fullMatch = match0,
                 startIndex = index,
                 endIndex = index + length match0,
                 isTruncated = False \<rparr>)
         (regex_exec_all FULL_ADDRESS_REGEX text 0)"

text \<open>\<open>/0x([a-fA-F0-9]{3,8})\.{2,3}([a-fA-F0-9]{3,8})/i\<close>\<close>

definition TRUNCATED_REGEX :: regex where
  "TRUNCATED_REGEX =
     [[(isChar CHR ''0'', 1, 1), (isX, 1, 1), (isHexDigit, 3, 8),
       (isChar CHR ''.'', 2, 3), (isHexDigit, 3, 8)]]"

text \<open>
  The \<open>for\<close> loop of \<open>matchTruncatedAddress\<close> over the known addresses, returning at the
  first one whose two slices agree with the prefix and the suffix.
\<close>

fun matchTruncatedAddress_loop :: "string \<Rightarrow> string \<Rightarrow> string list \<Rightarrow> string option" where
  "matchTruncatedAddress_loop prefix suffix [] = None"
| "matchTruncatedAddress_loop prefix suffix (addr # rest) =
     (let normalized = normalizeAddress addr
      in if slice 2 (2 + length prefix) normalized = prefix \<and>
            slice_last (length suffix) normalized = suffix
         then Some normalized
         else matchTruncatedAddress_loop prefix suffix rest)"

definition matchTruncatedAddress :: "string \<Rightarrow> string list \<Rightarrow> string option" where
  "matchTruncatedAddress truncated knownAddresses =
     (case regex_exec TRUNCATED_REGEX truncated 0 of
        None \<Rightarrow> None
      | Some (index, ls) \<Rightarrow>
          let g1 = index + 2;
              g2 = g1 + ls ! 2 + ls ! 3;
              prefix = toLowerCase (slice g1 (g1 + ls ! 2) truncated);
              suffix = toLowerCase (slice g2 (g2 + ls ! 4) truncated)
          in matchTruncatedAddress_loop prefix suffix knownAddresses)"


section \<open>Full addresses in a text\<close>

text \<open>
  The words of the specification: a full address, an occurrence of one at an index of a
  text, and a family of occurrences listed in ascending order that do not overlap.
\<close>

definition is_full_address :: "string \<Rightarrow> bool" where
  "is_full_address w =
     (length w = 42 \<and> w ! 0 = CHR ''0'' \<and> isX (w ! 1) \<and> list_all isHexDigit (drop 2 w))"

definition occurs_at :: "string \<Rightarrow> nat \<Rightarrow> bool" where
  "occurs_at text p = (p + 42 \<le> length text \<and> is_full_address (slice p (p + 42) text))"

fun disjoint_from :: "nat \<Rightarrow> string \<Rightarrow> nat list \<Rightarrow> bool" where
  "disjoint_from lo text [] = True"
| "disjoint_from lo text (p # ps) = (lo \<le> p \<and> occurs_at text p \<and> disjoint_from (p + 42) text ps)"

lemma takeWhile_ge_iff:
  "n \<le> length (takeWhile p s) \<longleftrightarrow> n \<le> length s \<and> list_all p (take n s)"
proof (induction s arbitrary: n)
  case Nil
  then show ?case by simp
next
  case (Cons c cs)
  then show ?case by (cases n) auto
qed

lemma match_items_fixed:
  "match_items ((p, n, n) # rest) s =
     (if n \<le> length s \<and> list_all p (take n s)
      then map_option ((#) n) (match_items rest (drop n s)) else None)"
proof (cases "n \<le> length (takeWhile p s)")
  case True
  then have r: "rev [n ..< Suc (min n (length (takeWhile p s)))] = [n]" by (simp add: min_absorb1)
  from True have c: "n \<le> length s \<and> list_all p (take n s)"
    unfolding takeWhile_ge_iff by blast
  show ?thesis
    by (simp only: match_items.simps prod.case r first_some.simps c if_True)
      (cases "match_items rest (drop n s)", simp_all)
next
  case False
  then have r: "rev [n ..< Suc (min n (length (takeWhile p s)))] = []" by simp
  from False have c: "\<not> (n \<le> length s \<and> list_all p (take n s))"
    unfolding takeWhile_ge_iff by blast
  show ?thesis
    by (simp only: match_items.simps prod.case r first_some.simps c if_False)
qed

definition full_at :: "string \<Rightarrow> bool" where
  "full_at s = (42 \<le> length s \<and> is_full_address (take 42 s))"

lemma full_at_Cons2:
  "full_at (c # d # cs) = (c = CHR ''0'' \<and> isX d \<and> 40 \<le> length cs \<and> list_all isHexDigit (take 40 cs))"
  unfolding full_at_def is_full_address_def by (auto simp: drop_take)

lemma full_at_short: "length s < 2 \<Longrightarrow> \<not> full_at s"
  unfolding full_at_def by simp

lemma match_here_FULL:
  "match_here FULL_ADDRESS_REGEX s = (if full_at s then Some [1, 1, 40] else None)"
proof (cases s)
  case Nil
  then show ?thesis
    unfolding match_here_def FULL_ADDRESS_REGEX_def
    by (simp add: match_items_fixed full_at_short del: match_items.simps(2))
next
  case (Cons c cs)
  show ?thesis
  proof (cases cs)
    case Nil
    with Cons show ?thesis
      unfolding match_here_def FULL_ADDRESS_REGEX_def
      by (simp add: match_items_fixed full_at_short isChar_def del: match_items.simps(2))
  next
    case (Cons d ds)
    with \<open>s = c # cs\<close> show ?thesis
      unfolding match_here_def FULL_ADDRESS_REGEX_def
      by (simp add: match_items_fixed full_at_Cons2 isChar_def del: match_items.simps(2))
  qed
qed


lemma re_search_Some_iff:
  "re_search r s = Some (j, ls) \<longleftrightarrow>
     j \<le> length s \<and> match_here r (drop j s) = Some ls \<and> (\<forall>k<j. match_here r (drop k s) = None)"
proof (induction s arbitrary: j)
  case Nil
  then show ?case by auto
next
  case (Cons c cs)
  show ?case
  proof (cases "match_here r (c # cs)")
    case (Some ls0)
    show ?thesis
    proof (cases j)
      case 0
      with Some show ?thesis by auto
    next
      case (Suc j')
      with Some show ?thesis by auto
    qed
  next
    case None
    show ?thesis
    proof (cases j)
      case 0
      with None show ?thesis by (auto split: prod.splits)
    next
      case (Suc j')
      have "(\<forall>k<Suc j'. match_here r (drop k (c # cs)) = None) \<longleftrightarrow>
            (\<forall>k<j'. match_here r (drop k cs) = None)"
        using None by (auto simp: less_Suc_eq_0_disj)
      with None Suc Cons.IH[of j'] show ?thesis by (auto split: prod.splits)
    qed
  qed
qed

lemma re_search_None_iff:
  "re_search r s = None \<longleftrightarrow> (\<forall>k\<le>length s. match_here r (drop k s) = None)"
proof (induction s)
  case Nil
  then show ?case by auto
next
  case (Cons c cs)
  have "(\<forall>k\<le>Suc (length cs). match_here r (drop k (c # cs)) = None) \<longleftrightarrow>
        match_here r (c # cs) = None \<and> (\<forall>k\<le>length cs. match_here r (drop k cs) = None)"
  proof (intro iffI conjI allI impI)
    fix k
    assume a: "match_here r (c # cs) = None \<and> (\<forall>k\<le>length cs. match_here r (drop k cs) = None)"
      and k: "k \<le> Suc (length cs)"
    then show "match_here r (drop k (c # cs)) = None" by (cases k) auto
  next
    assume a: "\<forall>k\<le>Suc (length cs). match_here r (drop k (c # cs)) = None"
    from a[rule_format, of 0] show "match_here r (c # cs) = None" by simp
  next
    fix k
    assume a: "\<forall>k\<le>Suc (length cs). match_here r (drop k (c # cs)) = None"
      and k: "k \<le> length cs"
    from a[rule_format, of "Suc k"] k show "match_here r (drop k cs) = None" by simp
  qed
  with Cons show ?case by (auto split: option.splits)
qed

lemma regex_exec_Some_iff:
  "regex_exec r s i = Some (j, ls) \<longleftrightarrow>
     i \<le> j \<and> j \<le> length s \<and> match_here r (drop j s) = Some ls \<and>
     (\<forall>k. i \<le> k \<and> k < j \<longrightarrow> match_here r (drop k s) = None)"
proof (cases "length s < i")
  case True
  then show ?thesis by (auto simp: regex_exec_def)
next
  case False
  have "regex_exec r s i = Some (j, ls) \<longleftrightarrow> i \<le> j \<and> re_search r (drop i s) = Some (j - i, ls)"
    using False by (auto simp: regex_exec_def)
  also have "\<dots> \<longleftrightarrow> i \<le> j \<and> j - i \<le> length s - i \<and> match_here r (drop (j - i + i) s) = Some ls \<and>
      (\<forall>k<j - i. match_here r (drop (k + i) s) = None)"
    by (simp add: re_search_Some_iff)
  also have "\<dots> \<longleftrightarrow> i \<le> j \<and> j \<le> length s \<and> match_here r (drop j s) = Some ls \<and>
     (\<forall>k. i \<le> k \<and> k < j \<longrightarrow> match_here r (drop k s) = None)"
  proof -
    have "(\<forall>k<j - i. match_here r (drop (k + i) s) = None) \<longleftrightarrow>
          (\<forall>k. i \<le> k \<and> k < j \<longrightarrow> match_here r (drop k s) = None)" (is "?A \<longleftrightarrow> ?B")
    proof
      assume a: ?A
      show ?B
      proof (intro allI impI)
        fix k assume "i \<le> k \<and> k < j"
        then have "k - i < j - i" "k - i + i = k" by auto
        with a[rule_format, of "k - i"] show "match_here r (drop k s) = None" by simp
      qed
    next
      assume b: ?B
      show ?A
      proof (intro allI impI)
        fix k assume "k < j - i"
        then have "i \<le> k + i \<and> k + i < j" by auto
        with b show "match_here r (drop (k + i) s) = None" by blast
      qed
    qed
    with False show ?thesis by auto
  qed
  finally show ?thesis .
qed

lemma regex_exec_None_iff:
  "regex_exec r s i = None \<longleftrightarrow>
     length s < i \<or> (\<forall>k. i \<le> k \<and> k \<le> length s \<longrightarrow> match_here r (drop k s) = None)"
proof (cases "length s < i")
  case True
  then show ?thesis by (auto simp: regex_exec_def)
next
  case False
  have "(\<forall>k\<le>length s - i. match_here r (drop (k + i) s) = None) \<longleftrightarrow>
        (\<forall>k. i \<le> k \<and> k \<le> length s \<longrightarrow> match_here r (drop k s) = None)" (is "?A \<longleftrightarrow> ?B")
  proof
    assume a: ?A
    show ?B
    proof (intro allI impI)
      fix k assume "i \<le> k \<and> k \<le> length s"
      then have "k - i \<le> length s - i" "k - i + i = k" by auto
      with a[rule_format, of "k - i"] show "match_here r (drop k s) = None" by simp
    qed
  next
    assume b: ?B
    show ?A
    proof (intro allI impI)
      fix k assume "k \<le> length s - i"
      with False have "i \<le> k + i \<and> k + i \<le> length s" by auto
      with b show "match_here r (drop (k + i) s) = None" by blast
    qed
  qed
  with False show ?thesis by (auto simp: regex_exec_def re_search_None_iff)
qed

lemma occurs_at_full_at: "occurs_at text p \<longleftrightarrow> p \<le> length text \<and> full_at (drop p text)"
  unfolding occurs_at_def full_at_def slice_def by auto


lemma exec_FULL_Some:
  assumes "regex_exec FULL_ADDRESS_REGEX text i = Some (j, ls)"
  shows "ls = [1, 1, 40]" "i \<le> j" "occurs_at text j"
    "\<And>k. i \<le> k \<Longrightarrow> k < j \<Longrightarrow> \<not> occurs_at text k"
  using assms unfolding regex_exec_Some_iff match_here_FULL occurs_at_full_at
  by (auto split: if_splits)

lemma exec_FULL_None:
  assumes "regex_exec FULL_ADDRESS_REGEX text i = None" "i \<le> k"
  shows "\<not> occurs_at text k"
  using assms unfolding regex_exec_None_iff match_here_FULL occurs_at_full_at
  by (auto split: if_splits)

lemma disjoint_from_mono: "disjoint_from lo text ps \<Longrightarrow> lo' \<le> lo \<Longrightarrow> disjoint_from lo' text ps"
  by (cases ps) auto

lemma disjoint_from_set:
  "disjoint_from lo text ps \<Longrightarrow> p \<in> set ps \<Longrightarrow> lo \<le> p \<and> occurs_at text p"
proof (induction ps arbitrary: lo)
  case Nil
  then show ?case by simp
next
  case (Cons q qs)
  from Cons.prems show ?case
  proof (cases "p = q")
    case True
    with Cons.prems show ?thesis by simp
  next
    case False
    with Cons.prems have "p \<in> set qs" "disjoint_from (q + 42) text qs" "lo \<le> q" by auto
    with Cons.IH[of "q + 42"] show ?thesis by auto
  qed
qed

lemma exec_all_FULL_unfold:
  "regex_exec_all FULL_ADDRESS_REGEX text i =
     (case regex_exec FULL_ADDRESS_REGEX text i of
        None \<Rightarrow> []
      | Some (j, ls) \<Rightarrow> (j, ls) # regex_exec_all FULL_ADDRESS_REGEX text (j + 42))"
proof (cases "regex_exec FULL_ADDRESS_REGEX text i")
  case None
  then show ?thesis by (subst regex_exec_all.simps) simp
next
  case (Some a)
  obtain j ls where a: "a = (j, ls)" by (cases a)
  with Some exec_FULL_Some(1)[of "text" i j ls] have "ls = [1, 1, 40]" by simp
  with Some a show ?thesis by (subst regex_exec_all.simps) simp
qed

lemma exec_all_FULL_disjoint:
  "disjoint_from i text (map fst (regex_exec_all FULL_ADDRESS_REGEX text i))"
proof (induction FULL_ADDRESS_REGEX "text" i rule: regex_exec_all.induct)
  case (1 s i)
  show ?case
  proof (cases "regex_exec FULL_ADDRESS_REGEX s i")
    case None
    then show ?thesis by (subst exec_all_FULL_unfold) simp
  next
    case (Some a)
    obtain j ls where a: "a = (j, ls)" by (cases a)
    with Some have e: "regex_exec FULL_ADDRESS_REGEX s i = Some (j, ls)" by simp
    note f = exec_FULL_Some[OF e]
    from f(1) have "sum_list ls = 42" "sum_list ls \<noteq> 0" by simp_all
    with "1.hyps"[OF e refl] have
      "disjoint_from (j + 42) s (map fst (regex_exec_all FULL_ADDRESS_REGEX s (j + 42)))"
      by simp
    with e f show ?thesis by (subst exec_all_FULL_unfold) simp
  qed
qed

lemma exec_all_FULL_lens:
  "(j, ls) \<in> set (regex_exec_all FULL_ADDRESS_REGEX text i) \<Longrightarrow> ls = [1, 1, 40]"
proof (induction FULL_ADDRESS_REGEX "text" i rule: regex_exec_all.induct)
  case (1 s i)
  show ?case
  proof (cases "regex_exec FULL_ADDRESS_REGEX s i")
    case None
    with "1.prems" exec_all_FULL_unfold[of s i] show ?thesis by simp
  next
    case (Some a)
    obtain j0 ls0 where a: "a = (j0, ls0)" by (cases a)
    with Some have e: "regex_exec FULL_ADDRESS_REGEX s i = Some (j0, ls0)" by simp
    note f = exec_FULL_Some[OF e]
    from f(1) have s42: "sum_list ls0 = 42" "sum_list ls0 \<noteq> 0" by simp_all
    from "1.prems" e exec_all_FULL_unfold[of s i] have "(j, ls) = (j0, ls0) \<or>
        (j, ls) \<in> set (regex_exec_all FULL_ADDRESS_REGEX s (j0 + 42))"
      by simp
    then show ?thesis
    proof
      assume "(j, ls) = (j0, ls0)"
      with f(1) show ?thesis by simp
    next
      assume "(j, ls) \<in> set (regex_exec_all FULL_ADDRESS_REGEX s (j0 + 42))"
      with "1.hyps"[OF e refl] s42 show ?thesis by simp
    qed
  qed
qed

lemma exec_all_FULL_max:
  "disjoint_from i text ps \<Longrightarrow> length ps \<le> length (regex_exec_all FULL_ADDRESS_REGEX text i)"
proof (induction FULL_ADDRESS_REGEX "text" i arbitrary: ps rule: regex_exec_all.induct)
  case (1 s i)
  show ?case
  proof (cases "regex_exec FULL_ADDRESS_REGEX s i")
    case None
    have "ps = []"
    proof (cases ps)
      case (Cons q qs)
      with "1.prems" have "i \<le> q" "occurs_at s q" by auto
      with exec_FULL_None[OF None] show ?thesis by blast
    qed simp
    then show ?thesis by simp
  next
    case (Some a)
    obtain j ls where a: "a = (j, ls)" by (cases a)
    with Some have e: "regex_exec FULL_ADDRESS_REGEX s i = Some (j, ls)" by simp
    note f = exec_FULL_Some[OF e]
    from f(1) have s42: "sum_list ls = 42" "sum_list ls \<noteq> 0" by simp_all
    show ?thesis
    proof (cases ps)
      case Nil
      then show ?thesis by simp
    next
      case (Cons q qs)
      with "1.prems" have q: "i \<le> q" "occurs_at s q" "disjoint_from (q + 42) s qs" by auto
      from q(1,2) f(4)[of q] have "j \<le> q" by (meson not_le_imp_less)
      with q(3) have "disjoint_from (j + 42) s qs" by (auto intro: disjoint_from_mono)
      with "1.hyps"[OF e refl, of qs] s42
      have "length qs \<le> length (regex_exec_all FULL_ADDRESS_REGEX s (j + 42))" by simp
      with e Cons show ?thesis by (subst exec_all_FULL_unfold) simp
    qed
  qed
qed

lemma exec_all_FULL_exact:
  "disjoint_from i text ps \<Longrightarrow> (\<And>p. i \<le> p \<Longrightarrow> occurs_at text p \<Longrightarrow> p \<in> set ps) \<Longrightarrow>
   map fst (regex_exec_all FULL_ADDRESS_REGEX text i) = ps"
proof (induction FULL_ADDRESS_REGEX "text" i arbitrary: ps rule: regex_exec_all.induct)
  case (1 s i)
  show ?case
  proof (cases "regex_exec FULL_ADDRESS_REGEX s i")
    case None
    have "ps = []"
    proof (cases ps)
      case (Cons q qs)
      with "1.prems"(1) have "i \<le> q" "occurs_at s q" by auto
      with exec_FULL_None[OF None] show ?thesis by blast
    qed simp
    with None show ?thesis by (subst exec_all_FULL_unfold) simp
  next
    case (Some a)
    obtain j ls where a: "a = (j, ls)" by (cases a)
    with Some have e: "regex_exec FULL_ADDRESS_REGEX s i = Some (j, ls)" by simp
    note f = exec_FULL_Some[OF e]
    from f(1) have s42: "sum_list ls = 42" "sum_list ls \<noteq> 0" by simp_all
    from "1.prems"(2)[OF f(2) f(3)] have jin: "j \<in> set ps" .
    then obtain q qs where Cons: "ps = q # qs" by (cases ps) auto
    with "1.prems"(1) have q: "i \<le> q" "occurs_at s q" "disjoint_from (q + 42) s qs" by auto
    from q(1,2) f(4)[of q] have jq: "j \<le> q" by (meson not_le_imp_less)
    have "j = q"
    proof (rule ccontr)
      assume "j \<noteq> q"
      with jin Cons have "j \<in> set qs" by simp
      from disjoint_from_set[OF q(3) this] jq show False by simp
    qed
    have "map fst (regex_exec_all FULL_ADDRESS_REGEX s (j + sum_list ls)) = qs"
    proof (rule "1.hyps"[OF e refl s42(2)])
      show "disjoint_from (j + sum_list ls) s qs" using q(3) \<open>j = q\<close> s42 by simp
    next
      fix p assume p: "j + sum_list ls \<le> p" "occurs_at s p"
      with f(2) s42 have "i \<le> p" by simp
      from "1.prems"(2)[OF this p(2)] Cons p(1) s42 \<open>j = q\<close> show "p \<in> set qs" by auto
    qed
    with e Cons \<open>j = q\<close> s42 show ?thesis by (subst exec_all_FULL_unfold) simp
  qed
qed

lemma toLowerCase_char_0: "toLowerCase_char CHR ''0'' = CHR ''0''"
  unfolding toLowerCase_char_def upperCaseLetters_def lowerCaseLetters_def by simp

lemma toLowerCase_char_X: "isX c \<Longrightarrow> toLowerCase_char c = CHR ''x''"
  unfolding isX_def by (erule disjE; hypsubst; simp add: toLowerCase_char_def upperCaseLetters_def lowerCaseLetters_def)

lemma isHexDigit_cases:
  "isHexDigit c \<Longrightarrow> c \<in> set ''0123456789abcdef'' \<or> c \<in> set ''ABCDEF''"
  unfolding isHexDigit_def by auto

lemma toLowerCase_char_hex:
  assumes "isHexDigit c"
  shows "toLowerCase_char c \<in> set ''0123456789abcdef''"
proof -
  from isHexDigit_cases[OF assms] show ?thesis
  proof
    assume "c \<in> set ''0123456789abcdef''"
    then have "toLowerCase_char c = c"
      by (simp, elim disjE; hypsubst; simp add: toLowerCase_char_def upperCaseLetters_def lowerCaseLetters_def)
    with \<open>c \<in> set ''0123456789abcdef''\<close> show ?thesis by simp
  next
    assume "c \<in> set ''ABCDEF''"
    then show ?thesis
      by (simp, elim disjE; hypsubst; simp add: toLowerCase_char_def upperCaseLetters_def lowerCaseLetters_def)
  qed
qed

definition disjoint_occurrences :: "string \<Rightarrow> nat list \<Rightarrow> bool" where
  "disjoint_occurrences text ps = disjoint_from 0 text ps"

definition is_canonical_address :: "string \<Rightarrow> bool" where
  "is_canonical_address a =
     (length a = 42 \<and> take 2 a = ''0x'' \<and> list_all (\<lambda>c. c \<in> set ''0123456789abcdef'') (drop 2 a))"

lemma canonical_toLowerCase:
  assumes "is_full_address w"
  shows "is_canonical_address (toLowerCase w)"
proof -
  from assms obtain c d ds where w: "w = c # d # ds" and l: "length ds = 40"
    and c: "c = CHR ''0''" and d: "isX d" and h: "list_all isHexDigit ds"
    unfolding is_full_address_def
    by (cases w; cases "tl w") auto
  from h have "list_all (\<lambda>c. c \<in> set ''0123456789abcdef'') (map toLowerCase_char ds)"
    unfolding list_all_iff using toLowerCase_char_hex by auto
  with w l c d show ?thesis
    unfolding is_canonical_address_def toLowerCase_def
    by (simp add: toLowerCase_char_0 toLowerCase_char_X)
qed

lemma findAddressesInText_starts:
  "map startIndex (findAddressesInText text) = map fst (regex_exec_all FULL_ADDRESS_REGEX text 0)"
  unfolding findAddressesInText_def by (simp add: case_prod_beta Let_def comp_def)

lemma findAddressesInText_record:
  assumes "m \<in> set (findAddressesInText text)"
  shows "occurs_at text (startIndex m) \<and> endIndex m = startIndex m + 42 \<and>
         fullMatch m = slice (startIndex m) (startIndex m + 42) text \<and>
         address m = toLowerCase (fullMatch m) \<and> \<not> isTruncated m"
proof -
  from assms obtain j ls where in_all: "(j, ls) \<in> set (regex_exec_all FULL_ADDRESS_REGEX text 0)"
    and m: "m = \<lparr> address = normalizeAddress (slice j (j + sum_list ls) text),
                  fullMatch = slice j (j + sum_list ls) text,
                  startIndex = j,
                  endIndex = j + length (slice j (j + sum_list ls) text),
                  isTruncated = False \<rparr>"
    unfolding findAddressesInText_def by (auto simp: Let_def)
  from exec_all_FULL_lens[OF in_all] have ls: "sum_list ls = 42" by simp
  have "j \<in> set (map fst (regex_exec_all FULL_ADDRESS_REGEX text 0))"
    using in_all by force
  from disjoint_from_set[OF exec_all_FULL_disjoint this] have occ: "occurs_at text j" by simp
  then have "j + 42 \<le> length text" unfolding occurs_at_def by simp
  then have "min (length text - j) 42 = 42" by arith
  then have "length (slice j (j + 42) text) = 42"
    unfolding slice_def by simp
  with m ls occ show ?thesis by (simp add: normalizeAddress_def)
qed

text \<open>
  Claim C2. An occurrence of a full address in a text is a window of 42 code units that
  reads \<open>0x\<close> (the \<open>x\<close> in either case, as the \<open>i\<close> flag accepts it) followed by 40
  hexadecimal digits. For every text, the start indices returned by \<open>findAddressesInText\<close>
  are pairwise disjoint occurrences in ascending order; no family of pairwise disjoint
  occurrences of the text is longer than the result, so a text that contains \<open>k\<close> disjoint
  occurrences and no more yields exactly \<open>k\<close> records; when the occurrences of the text are
  pairwise disjoint the result lists exactly them; and every record satisfies
  \<open>startIndex < endIndex \<le> length text\<close>, its \<open>fullMatch\<close> is the slice between the two
  indices, and its \<open>address\<close> is the lowercase form of that slice, \<open>0x\<close> and 40 lowercase
  hexadecimal digits.
\<close>

theorem findAddressesInText_disjoint_occurrences:
  "disjoint_occurrences text (map startIndex (findAddressesInText text)) \<and>
   (\<forall>ps. disjoint_occurrences text ps \<longrightarrow> length ps \<le> length (findAddressesInText text)) \<and>
   (\<forall>ps. disjoint_occurrences text ps \<and> (\<forall>p. occurs_at text p \<longrightarrow> p \<in> set ps) \<longrightarrow>
         map startIndex (findAddressesInText text) = ps) \<and>
   (\<forall>m \<in> set (findAddressesInText text).
       startIndex m < endIndex m \<and> endIndex m \<le> length text \<and>
       fullMatch m = slice (startIndex m) (endIndex m) text \<and>
       is_full_address (fullMatch m) \<and>
       address m = toLowerCase (fullMatch m) \<and>
       is_canonical_address (address m) \<and> \<not> isTruncated m)"
proof (intro conjI allI impI ballI)
  show "disjoint_occurrences text (map startIndex (findAddressesInText text))"
    unfolding disjoint_occurrences_def findAddressesInText_starts
    by (rule exec_all_FULL_disjoint)
next
  fix ps assume "disjoint_occurrences text ps"
  then have "length ps \<le> length (regex_exec_all FULL_ADDRESS_REGEX text 0)"
    unfolding disjoint_occurrences_def by (rule exec_all_FULL_max)
  then show "length ps \<le> length (findAddressesInText text)"
    unfolding findAddressesInText_def by simp
next
  fix ps assume a: "disjoint_occurrences text ps \<and> (\<forall>p. occurs_at text p \<longrightarrow> p \<in> set ps)"
  show "map startIndex (findAddressesInText text) = ps"
    unfolding findAddressesInText_starts
    using a by (intro exec_all_FULL_exact) (auto simp: disjoint_occurrences_def)
next
  fix m assume m: "m \<in> set (findAddressesInText text)"
  note r = findAddressesInText_record[OF m]
  from r show "startIndex m < endIndex m" by simp
  from r show "endIndex m \<le> length text" by (simp add: occurs_at_def)
  from r show "fullMatch m = slice (startIndex m) (endIndex m) text" by simp
  from r show fa: "is_full_address (fullMatch m)" by (simp add: occurs_at_def)
  from r show "address m = toLowerCase (fullMatch m)" by simp
  from r canonical_toLowerCase[OF fa] show "is_canonical_address (address m)" by simp
  from r show "\<not> isTruncated m" by simp
qed

theorem findAddressesInText_disjoint_occurrences_witness:
  "disjoint_occurrences
     ''to 0xAbCdEf0123456789aBcDeF0123456789abcdef01, thanks'' [3] \<and>
   length [3::nat] \<le> length (findAddressesInText
     ''to 0xAbCdEf0123456789aBcDeF0123456789abcdef01, thanks'')"
proof -
  have d: "disjoint_occurrences
     ''to 0xAbCdEf0123456789aBcDeF0123456789abcdef01, thanks'' [3]"
    by code_simp
  with findAddressesInText_disjoint_occurrences
    [of "''to 0xAbCdEf0123456789aBcDeF0123456789abcdef01, thanks''"]
  show ?thesis by blast
qed


section \<open>Truncated addresses\<close>

lemma match_items_first:
  assumes "lo \<le> min hi (length (takeWhile p s))"
    and "match_items rest (drop (min hi (length (takeWhile p s))) s) = Some ls"
  shows "match_items ((p, lo, hi) # rest) s = Some (min hi (length (takeWhile p s)) # ls)"
proof -
  let ?m = "min hi (length (takeWhile p s))"
  from assms(1) have "rev [lo ..< Suc ?m] = ?m # rev [lo ..< ?m]" by simp
  with assms(2) show ?thesis by simp
qed

lemma match_items_sound:
  assumes "match_items ((p, lo, hi) # rest) s = Some ls"
  shows "\<exists>n ls'. ls = n # ls' \<and> lo \<le> n \<and> n \<le> hi \<and> n \<le> length s \<and>
           list_all p (take n s) \<and> match_items rest (drop n s) = Some ls'"
proof -
  from assms obtain n where
    n: "n \<in> set (rev [lo ..< Suc (min hi (length (takeWhile p s)))])"
    and m: "map_option ((#) n) (match_items rest (drop n s)) = Some ls"
    by (auto dest!: first_some_Some)
  from m obtain ls' where ls': "match_items rest (drop n s) = Some ls'" "ls = n # ls'"
    by auto
  from n have b: "lo \<le> n" "n \<le> hi" "n \<le> length (takeWhile p s)" by auto
  from b(3) have "n \<le> length s \<and> list_all p (take n s)" by (simp only: takeWhile_ge_iff)
  with b ls' show ?thesis by blast
qed

text \<open>
  The words of the specification for a truncated display string: \<open>0x\<close> (the \<open>x\<close> in
  either case), a run \<open>p\<close> of 3 to \<open>hi\<close> hexadecimal digits, two or three dots \<open>d\<close>, and a
  run \<open>u\<close> of 3 to \<open>hi\<close> hexadecimal digits; and the comparison of the two runs, without
  regard to case, with the slice after \<open>0x\<close> and the last slice of a known address.
\<close>

definition isDots :: "string \<Rightarrow> bool" where
  "isDots d = (d = ''..'' \<or> d = ''...'')"

definition truncated_parts :: "nat \<Rightarrow> char \<Rightarrow> string \<Rightarrow> string \<Rightarrow> string \<Rightarrow> bool" where
  "truncated_parts hi x p d u =
     (isX x \<and> list_all isHexDigit p \<and> 3 \<le> length p \<and> length p \<le> hi \<and> isDots d \<and>
      list_all isHexDigit u \<and> 3 \<le> length u \<and> length u \<le> hi)"

definition sides_match :: "string \<Rightarrow> string \<Rightarrow> string \<Rightarrow> bool" where
  "sides_match p u known =
     (slice 2 (2 + length p) (toLowerCase known) = toLowerCase p \<and>
      slice_last (length u) (toLowerCase known) = toLowerCase u)"

lemma matchTruncatedAddress_loop_find:
  "matchTruncatedAddress_loop (toLowerCase p) (toLowerCase u) known =
     map_option normalizeAddress (find (sides_match p u) known)"
  by (induction known) (simp_all add: sides_match_def normalizeAddress_def toLowerCase_def Let_def)

lemma matchTruncatedAddress_loop_known:
  "matchTruncatedAddress_loop pre suf known = Some r \<Longrightarrow> \<exists>a \<in> set known. r = normalizeAddress a"
  by (induction known) (auto simp: Let_def split: if_splits)

lemma not_hex_dot: "\<not> isHexDigit CHR ''.''"
  unfolding isHexDigit_def by simp

lemma takeWhile_run:
  assumes "list_all P xs" "ys = [] \<or> \<not> P (hd ys)"
  shows "takeWhile P (xs @ ys) = xs"
proof -
  from assms(2) have "takeWhile P ys = []" by (cases ys) auto
  with assms(1) show ?thesis by (simp add: takeWhile_append2 list_all_iff)
qed

lemma match_TRUNCATED_parts:
  assumes "truncated_parts 8 x p d u"
  shows "match_here TRUNCATED_REGEX (CHR ''0'' # x # p @ d @ u @ post) \<noteq> None"
    and "post = [] \<or> \<not> isHexDigit (hd post) \<Longrightarrow>
         match_here TRUNCATED_REGEX (CHR ''0'' # x # p @ d @ u @ post)
           = Some [1, 1, length p, length d, length u]"
proof -
  from assms have x: "isX x" and p: "list_all isHexDigit p" "3 \<le> length p" "length p \<le> 8"
    and d: "isDots d" and u: "list_all isHexDigit u" "3 \<le> length u" "length u \<le> 8"
    unfolding truncated_parts_def by auto
  from d have dne: "d \<noteq> []" "hd d = CHR ''.''" "list_all (isChar CHR ''.'') d"
    "2 \<le> length d" "length d \<le> 3"
    unfolding isDots_def isChar_def by auto
  from u have une: "u \<noteq> []" by auto
  have une_hd: "isHexDigit (hd u)" using u(1) une by (cases u) auto
  \<comment> \<open>the second hex run, whatever follows it\<close>
  define m where "m = min 8 (length (takeWhile isHexDigit (u @ post)))"
  have "length u \<le> length (takeWhile isHexDigit (u @ post))"
    using u(1) by (simp add: takeWhile_append2 list_all_iff)
  with u have m3: "3 \<le> m" unfolding m_def by simp
  have s3: "match_items [(isHexDigit, 3, 8)] (u @ post) = Some [m]"
    unfolding m_def by (rule match_items_first) (use m3 in \<open>simp_all add: m_def\<close>)
  \<comment> \<open>the dots\<close>
  have twd: "takeWhile (isChar CHR ''.'') (d @ u @ post) = d"
    using dne(3) une une_hd by (intro takeWhile_run) (auto simp: isChar_def not_hex_dot)
  have md: "min 3 (length (takeWhile (isChar CHR ''.'') (d @ u @ post))) = length d"
    using dne(5) by (simp add: twd)
  have s2: "match_items [(isChar CHR ''.'', 2, 3), (isHexDigit, 3, 8)] (d @ u @ post)
              = Some [length d, m]"
    using match_items_first[of 2 3 "isChar CHR ''.''" "d @ u @ post" "[(isHexDigit, 3, 8)]" "[m]"]
    unfolding md using dne(4) s3 by simp
  \<comment> \<open>the first hex run\<close>
  have twp: "takeWhile isHexDigit (p @ d @ u @ post) = p"
    using p(1) dne by (intro takeWhile_run) (auto simp: not_hex_dot)
  have mp: "min 8 (length (takeWhile isHexDigit (p @ d @ u @ post))) = length p"
    using p(3) by (simp add: twp)
  have s1: "match_items [(isHexDigit, 3, 8), (isChar CHR ''.'', 2, 3), (isHexDigit, 3, 8)]
              (p @ d @ u @ post) = Some [length p, length d, m]"
    using match_items_first[of 3 8 isHexDigit "p @ d @ u @ post"
        "[(isChar CHR ''.'', 2, 3), (isHexDigit, 3, 8)]" "[length d, m]"]
    unfolding mp using p(2) s2 by simp
  have s0: "match_here TRUNCATED_REGEX (CHR ''0'' # x # p @ d @ u @ post)
              = Some [1, 1, length p, length d, m]"
    unfolding match_here_def TRUNCATED_REGEX_def
    using s1 x by (simp add: match_items_fixed isChar_def del: match_items.simps(2))
  then show "match_here TRUNCATED_REGEX (CHR ''0'' # x # p @ d @ u @ post) \<noteq> None" by simp
  assume "post = [] \<or> \<not> isHexDigit (hd post)"
  with u(1) have "takeWhile isHexDigit (u @ post) = u" by (intro takeWhile_run) auto
  with u(3) have "m = length u" unfolding m_def by simp
  with s0 show "match_here TRUNCATED_REGEX (CHR ''0'' # x # p @ d @ u @ post)
           = Some [1, 1, length p, length d, length u]" by simp
qed


lemma regex_exec_at_0:
  "match_here r s = Some ls \<Longrightarrow> regex_exec r s 0 = Some (0, ls)"
  by (simp add: regex_exec_Some_iff)

lemma matchTruncatedAddress_parts:
  assumes "truncated_parts 8 x p d u"
  shows "matchTruncatedAddress (CHR ''0'' # x # p @ d @ u) known =
           map_option normalizeAddress (find (sides_match p u) known)"
proof -
  have "match_here TRUNCATED_REGEX (CHR ''0'' # x # p @ d @ u @ [])
          = Some [1, 1, length p, length d, length u]"
    by (rule match_TRUNCATED_parts(2)[OF assms]) simp
  then have e: "regex_exec TRUNCATED_REGEX (CHR ''0'' # x # p @ d @ u) 0
          = Some (0, [1, 1, length p, length d, length u])"
    by (simp add: regex_exec_at_0)
  have g1: "slice 2 (2 + length p) (CHR ''0'' # x # p @ d @ u) = p"
    unfolding slice_def by simp
  have g2: "slice (2 + length p + length d) (2 + length p + length d + length u)
              (CHR ''0'' # x # p @ d @ u) = u"
    unfolding slice_def by simp
  show ?thesis
    unfolding matchTruncatedAddress_def e
    by (simp add: Let_def slice_def matchTruncatedAddress_loop_find)
qed

lemma isDots_run: "list_all (isChar CHR ''.'') d \<Longrightarrow> 2 \<le> length d \<Longrightarrow> length d \<le> 3 \<Longrightarrow> isDots d"
proof -
  assume a: "list_all (isChar CHR ''.'') d" "2 \<le> length d" "length d \<le> 3"
  then obtain a1 a2 r where d: "d = a1 # a2 # r" by (cases d; cases "tl d") auto
  with a(3) have "r = [] \<or> (\<exists>a3. r = [a3])" by (cases r) auto
  with a(1) d show ?thesis unfolding isDots_def isChar_def by auto
qed

lemma match_TRUNCATED_sound:
  assumes "match_here TRUNCATED_REGEX s = Some ls"
  shows "\<exists>x p d u post. s = CHR ''0'' # x # p @ d @ u @ post \<and> truncated_parts 8 x p d u"
proof -
  from assms have m: "match_items [(isChar CHR ''0'', 1, 1), (isX, 1, 1), (isHexDigit, 3, 8),
       (isChar CHR ''.'', 2, 3), (isHexDigit, 3, 8)] s = Some ls"
    unfolding match_here_def TRUNCATED_REGEX_def
    by (simp del: match_items.simps split: option.splits)
  from match_items_sound[OF m] obtain l1 where
    a1: "1 \<le> length s" "list_all (isChar CHR ''0'') (take 1 s)"
    and m1: "match_items [(isX, 1, 1), (isHexDigit, 3, 8),
       (isChar CHR ''.'', 2, 3), (isHexDigit, 3, 8)] (drop 1 s) = Some l1"
    by force
  from a1 obtain s1 where s: "s = CHR ''0'' # s1" by (cases s) (auto simp: isChar_def)
  from match_items_sound[OF m1] s obtain l2 where
    a2: "1 \<le> length s1" "list_all isX (take 1 s1)"
    and m2: "match_items [(isHexDigit, 3, 8),
       (isChar CHR ''.'', 2, 3), (isHexDigit, 3, 8)] (drop 1 s1) = Some l2"
    by force
  from a2 obtain x s2 where s1: "s1 = x # s2" and x: "isX x" by (cases s1) auto
  from match_items_sound[OF m2] s1 obtain n3 l3 where
    a3: "3 \<le> n3" "n3 \<le> 8" "n3 \<le> length s2" "list_all isHexDigit (take n3 s2)"
    and m3: "match_items [(isChar CHR ''.'', 2, 3), (isHexDigit, 3, 8)] (drop n3 s2) = Some l3"
    by force
  from match_items_sound[OF m3] obtain n4 l4 where
    a4: "2 \<le> n4" "n4 \<le> 3" "n4 \<le> length (drop n3 s2)"
      "list_all (isChar CHR ''.'') (take n4 (drop n3 s2))"
    and m4: "match_items [(isHexDigit, 3, 8)] (drop n4 (drop n3 s2)) = Some l4"
    by force
  from match_items_sound[OF m4] obtain n5 where
    a5: "3 \<le> n5" "n5 \<le> 8" "n5 \<le> length (drop n4 (drop n3 s2))"
      "list_all isHexDigit (take n5 (drop n4 (drop n3 s2)))"
    by force
  define p where "p = take n3 s2"
  define d where "d = take n4 (drop n3 s2)"
  define u where "u = take n5 (drop n4 (drop n3 s2))"
  define post where "post = drop n5 (drop n4 (drop n3 s2))"
  have "s2 = p @ d @ u @ post"
    unfolding p_def d_def u_def post_def by (simp only: append_take_drop_id)
  moreover have "truncated_parts 8 x p d u"
    unfolding truncated_parts_def p_def d_def u_def
    using x a3 a4 a5 by (auto intro!: isDots_run simp: min_absorb2)
  ultimately show ?thesis using s s1 by blast
qed

lemma matchTruncatedAddress_no_parts:
  assumes "\<forall>pre x p d u post.
             truncated = pre @ CHR ''0'' # x # p @ d @ u @ post \<longrightarrow> \<not> truncated_parts 8 x p d u"
  shows "matchTruncatedAddress truncated known = None"
proof (cases "regex_exec TRUNCATED_REGEX truncated 0")
  case None
  then show ?thesis unfolding matchTruncatedAddress_def by simp
next
  case (Some a)
  obtain j ls where a: "a = (j, ls)" by (cases a)
  with Some have "j \<le> length truncated" "match_here TRUNCATED_REGEX (drop j truncated) = Some ls"
    by (simp_all add: regex_exec_Some_iff)
  from match_TRUNCATED_sound[OF this(2)] obtain x p d u post where
    "drop j truncated = CHR ''0'' # x # p @ d @ u @ post" "truncated_parts 8 x p d u" by blast
  then have "truncated = take j truncated @ CHR ''0'' # x # p @ d @ u @ post"
    by (metis append_take_drop_id)
  with assms \<open>truncated_parts 8 x p d u\<close> show ?thesis by blast
qed

text \<open>
  Runs of 3 to 8 hexadecimal digits. For every display string \<open>0x\<close> + 3 to 8 hexadecimal
  digits + 2 or 3 dots + 3 to 8 hexadecimal digits and every list of known addresses,
  \<open>matchTruncatedAddress\<close> returns the lowercase form of the first known address whose
  slice after \<open>0x\<close> and whose last slice agree with the two runs without regard to case,
  and \<open>null\<close> when no known address does; and it returns \<open>null\<close> for every input that
  contains no such display string.
\<close>

lemma matchTruncatedAddress_short_runs:
  "(truncated_parts 8 x p d u \<longrightarrow>
      matchTruncatedAddress (CHR ''0'' # x # p @ d @ u) knownAddresses =
        map_option normalizeAddress (find (sides_match p u) knownAddresses)) \<and>
   ((\<forall>pre x p d u post.
        truncated = pre @ CHR ''0'' # x # p @ d @ u @ post \<longrightarrow> \<not> truncated_parts 8 x p d u) \<longrightarrow>
      matchTruncatedAddress truncated knownAddresses = None)"
  using matchTruncatedAddress_parts matchTruncatedAddress_no_parts by blast

lemma matchTruncatedAddress_short_runs_example:
  "truncated_parts 8 CHR ''x'' ''AbC'' ''...'' ''dEf'' \<and>
   matchTruncatedAddress ''0xAbC...dEf''
     [''0xabd0000000000000000000000000000000000def'',
      ''0xABC0000000000000000000000000000000000DEF'',
      ''0xabc1111111111111111111111111111111111def'']
     = Some ''0xabc0000000000000000000000000000000000def'' \<and>
   matchTruncatedAddress ''hello'' [''0xabc0000000000000000000000000000000000def''] = None"
proof -
  have h: "truncated_parts 8 CHR ''x'' ''AbC'' ''...'' ''dEf''" by code_simp
  have f: "map_option normalizeAddress (find (sides_match ''AbC'' ''dEf'')
     [''0xabd0000000000000000000000000000000000def'',
      ''0xABC0000000000000000000000000000000000DEF'',
      ''0xabc1111111111111111111111111111111111def''])
     = Some ''0xabc0000000000000000000000000000000000def''" by code_simp
  have n: "\<forall>pre x p d u post.
        ''hello'' = pre @ CHR ''0'' # x # p @ d @ u @ post \<longrightarrow> \<not> truncated_parts 8 x p d u"
  proof (intro allI impI)
    fix pre x p d u post
    assume "''hello'' = pre @ CHR ''0'' # x # p @ d @ u @ post"
    then have "set ''hello'' = set (pre @ CHR ''0'' # x # p @ d @ u @ post)" by simp
    then have "CHR ''0'' \<in> set ''hello''" by (simp del: set_simps(2)) auto
    then show "\<not> truncated_parts 8 x p d u" by simp
  qed
  from matchTruncatedAddress_short_runs[of "CHR ''x''" "''AbC''" "''...''" "''dEf''" _ "''hello''"]
    h f n show ?thesis by simp
qed

text \<open>
  Claim C10. For every input and every list of known addresses, \<open>matchTruncatedAddress\<close>
  returns \<open>null\<close> or the lowercase form of an element of the list, and always \<open>null\<close> when
  the list is empty.
\<close>

theorem matchTruncatedAddress_known_only:
  "(matchTruncatedAddress truncated knownAddresses = None \<or>
    (\<exists>a \<in> set knownAddresses.
        matchTruncatedAddress truncated knownAddresses = Some (normalizeAddress a))) \<and>
   matchTruncatedAddress truncated [] = None"
proof -
  have "matchTruncatedAddress truncated [] = None"
    unfolding matchTruncatedAddress_def by (simp add: Let_def split: option.splits prod.splits)
  moreover have "matchTruncatedAddress truncated knownAddresses = None \<or>
    (\<exists>a \<in> set knownAddresses.
        matchTruncatedAddress truncated knownAddresses = Some (normalizeAddress a))"
  proof (cases "matchTruncatedAddress truncated knownAddresses")
    case (Some r)
    then obtain pre suf where "matchTruncatedAddress_loop pre suf knownAddresses = Some r"
      unfolding matchTruncatedAddress_def
      by (auto simp: Let_def split: option.splits prod.splits)
    from matchTruncatedAddress_loop_known[OF this] Some show ?thesis by auto
  qed simp
  ultimately show ?thesis by blast
qed

theorem matchTruncatedAddress_known_only_witness:
  "matchTruncatedAddress ''0xabc...def'' [''0xABC0000000000000000000000000000000000DEF'']
     = Some (normalizeAddress ''0xABC0000000000000000000000000000000000DEF'') \<and>
   matchTruncatedAddress ''0xabc...def'' [] = None"
proof -
  have "matchTruncatedAddress ''0xabc...def'' [''0xABC0000000000000000000000000000000000DEF'']
     \<noteq> None" by code_simp
  with matchTruncatedAddress_known_only[of "''0xabc...def''"
      "[''0xABC0000000000000000000000000000000000DEF'']"]
  show ?thesis by simp
qed

section \<open>Arkham label import (content/index.ts, fetchArkhamLabels)\<close>

text \<open>
  The \<open>Tag\<close> interface; its field \<open>address\<close> is \<open>tagAddress\<close> here, and the optional
  \<open>entity\<close> is an option. The two API answers carry, for an entity, its name and
  \<open>addresses?.evm\<close>, and for a label its chain type, address and name.
\<close>

record Tag =
  tagAddress :: string
  name :: string
  entity :: "string option"
  source :: string

record ArkhamEntity =
  entityName :: string
  evm :: "string list option"

record ArkhamLabel =
  chainType :: string
  labelAddress :: string
  labelName :: string

text \<open>
  A JavaScript \<open>Map\<close> keeps its keys in insertion order; \<open>set\<close> on a present key replaces
  the value in place.
\<close>

type_synonym tagMap = "(string \<times> Tag) list"

definition Map_get :: "(string \<times> 'v) list \<Rightarrow> string \<Rightarrow> 'v option" where
  "Map_get m k = map_of m k"

fun Map_set :: "string \<Rightarrow> 'v \<Rightarrow> (string \<times> 'v) list \<Rightarrow> (string \<times> 'v) list" where
  "Map_set k v [] = [(k, v)]"
| "Map_set k v (p # ps) = (if fst p = k then (k, v) # ps else p # Map_set k v ps)"

datatype fetch_error = NoLabelsOrEntities

fun entityAddressesLoop :: "string \<Rightarrow> string list \<Rightarrow> tagMap \<Rightarrow> tagMap" where
  "entityAddressesLoop ename [] m = m"
| "entityAddressesLoop ename (addr # rest) m =
     (let normalized = toLowerCase addr
      in entityAddressesLoop ename rest
           (Map_set normalized
              \<lparr> tagAddress = normalized, name = ename, entity = Some ename,
                source = ''arkham'' \<rparr> m))"

fun entitiesLoop :: "ArkhamEntity list \<Rightarrow> tagMap \<Rightarrow> tagMap" where
  "entitiesLoop [] m = m"
| "entitiesLoop (e # rest) m =
     (let evmAddresses = (case evm e of None \<Rightarrow> [] | Some as \<Rightarrow> as)
      in entitiesLoop rest (entityAddressesLoop (entityName e) evmAddresses m))"

definition labelStep :: "ArkhamLabel \<Rightarrow> tagMap \<Rightarrow> tagMap" where
  "labelStep item m =
     (if chainType item = ''evm''
      then let normalized = toLowerCase (labelAddress item);
               existing = Map_get m normalized
           in Map_set normalized
                \<lparr> tagAddress = normalized, name = labelName item,
                  entity = (case existing of None \<Rightarrow> None | Some t \<Rightarrow> entity t),
                  source = ''arkham'' \<rparr> m
      else m)"

fun labelsLoop :: "ArkhamLabel list \<Rightarrow> tagMap \<Rightarrow> tagMap" where
  "labelsLoop [] m = m"
| "labelsLoop (item # rest) m = labelsLoop rest (labelStep item m)"

text \<open>
  The two arguments are the parsed answers of the two requests, \<open>None\<close> when the answer
  is not \<open>ok\<close>.
\<close>

definition fetchArkhamLabels ::
  "ArkhamEntity list option \<Rightarrow> ArkhamLabel list option \<Rightarrow> fetch_error + Tag list" where
  "fetchArkhamLabels entitiesResponse labelsResponse =
     (let m1 = (case entitiesResponse of None \<Rightarrow> [] | Some entitiesData \<Rightarrow> entitiesLoop entitiesData []);
          m2 = (case labelsResponse of None \<Rightarrow> m1 | Some labelsData \<Rightarrow> labelsLoop labelsData m1);
          tags = map snd m2
      in if length tags = 0 then Inl NoLabelsOrEntities else Inr tags)"

lemma Map_get_set: "Map_get (Map_set k v m) k' = (if k' = k then Some v else Map_get m k')"
  unfolding Map_get_def by (induction m) auto

lemma labelStep_entity:
  "Map_get m a = Some t \<Longrightarrow> \<exists>t'. Map_get (labelStep item m) a = Some t' \<and> entity t' = entity t"
  unfolding labelStep_def by (auto simp: Map_get_set Let_def)

lemma labelsLoop_entity:
  "Map_get m a = Some t \<Longrightarrow> \<exists>t'. Map_get (labelsLoop items m) a = Some t' \<and> entity t' = entity t"
proof (induction items arbitrary: m t)
  case Nil
  then show ?case by simp
next
  case (Cons item rest)
  from labelStep_entity[OF Cons.prems, of item] obtain t1 where
    t1: "Map_get (labelStep item m) a = Some t1" "entity t1 = entity t" by blast
  from Cons.IH[OF t1(1)] t1(2) show ?case by simp
qed

text \<open>
  Claim C8. When the map holds a record for an address and a label of chain type \<open>evm\<close>
  arrives for the same address, the record of the address afterwards has the label's name
  and the entity of the record it replaces; and whatever labels follow, the entity that
  an address has in the map stays with it to the end of the labels loop. With an
  \<open>arkham\<close> record of name \<open>Foo\<close> and entity \<open>Acme\<close> followed by a label \<open>Bar\<close>, the
  record becomes name \<open>Bar\<close>, entity \<open>Acme\<close>.
\<close>

theorem label_overrides_name_keeps_entity:
  "(Map_get tagMap (toLowerCase (labelAddress item)) = Some existing \<and> chainType item = ''evm'' \<longrightarrow>
      Map_get (labelStep item tagMap) (toLowerCase (labelAddress item)) =
        Some \<lparr> tagAddress = toLowerCase (labelAddress item), name = labelName item,
               entity = entity existing, source = ''arkham'' \<rparr>) \<and>
   (Map_get tagMap a = Some existing \<longrightarrow>
      (\<exists>t. Map_get (labelsLoop items tagMap) a = Some t \<and> entity t = entity existing))"
  using labelsLoop_entity by (auto simp: labelStep_def Map_get_set Let_def)

theorem label_overrides_name_keeps_entity_witness:
  "Map_get [(''0xab'', \<lparr> tagAddress = ''0xab'', name = ''Foo'', entity = Some ''Acme'',
                         source = ''arkham'' \<rparr>)] (toLowerCase ''0xAB'')
     = Some \<lparr> tagAddress = ''0xab'', name = ''Foo'', entity = Some ''Acme'', source = ''arkham'' \<rparr> \<and>
   Map_get (labelStep \<lparr> chainType = ''evm'', labelAddress = ''0xAB'', labelName = ''Bar'' \<rparr>
       [(''0xab'', \<lparr> tagAddress = ''0xab'', name = ''Foo'', entity = Some ''Acme'',
                     source = ''arkham'' \<rparr>)]) ''0xab''
     = Some \<lparr> tagAddress = ''0xab'', name = ''Bar'', entity = Some ''Acme'', source = ''arkham'' \<rparr> \<and>
   fetchArkhamLabels (Some [\<lparr> entityName = ''Acme'', evm = Some [''0xAB''] \<rparr>])
       (Some [\<lparr> chainType = ''evm'', labelAddress = ''0xab'', labelName = ''Foo'' \<rparr>,
              \<lparr> chainType = ''evm'', labelAddress = ''0xAB'', labelName = ''Bar'' \<rparr>])
     = Inr [\<lparr> tagAddress = ''0xab'', name = ''Bar'', entity = Some ''Acme'', source = ''arkham'' \<rparr>]"
proof -
  let ?m = "[(''0xab'', \<lparr> tagAddress = ''0xab'', name = ''Foo'', entity = Some ''Acme'',
                         source = ''arkham'' \<rparr>)]"
  let ?item = "\<lparr> chainType = ''evm'', labelAddress = ''0xAB'', labelName = ''Bar'' \<rparr>"
  have l: "toLowerCase ''0xAB'' = ''0xab''" by code_simp
  have g: "Map_get ?m (toLowerCase (labelAddress ?item))
     = Some \<lparr> tagAddress = ''0xab'', name = ''Foo'', entity = Some ''Acme'', source = ''arkham'' \<rparr>"
    by (simp add: l Map_get_def)
  have f: "fetchArkhamLabels (Some [\<lparr> entityName = ''Acme'', evm = Some [''0xAB''] \<rparr>])
       (Some [\<lparr> chainType = ''evm'', labelAddress = ''0xab'', labelName = ''Foo'' \<rparr>,
              \<lparr> chainType = ''evm'', labelAddress = ''0xAB'', labelName = ''Bar'' \<rparr>])
     = Inr [\<lparr> tagAddress = ''0xab'', name = ''Bar'', entity = Some ''Acme'', source = ''arkham'' \<rparr>]"
    by code_simp
  from label_overrides_name_keeps_entity[of ?m ?item
      "\<lparr> tagAddress = ''0xab'', name = ''Foo'', entity = Some ''Acme'', source = ''arkham'' \<rparr>"]
    g f l show ?thesis by simp
qed

section \<open>Hover panel (content/index.ts, showControlPanel and hideControlPanelDelayed)\<close>

text \<open>
  The module-level variables of the panel, and beside them what the browser holds: the
  clock in milliseconds, the pending timers (identifier, due time, callback), the
  \<open>GET_TAGS\<close> requests on which a call of \<open>showControlPanelNow\<close> is waiting, and the panel
  and bridge elements that are children of the document body. A panel element is its
  identifier and the address it was built for. Timer identifiers are positive, as the
  browser's are, so that \<open>if (hideTimeout)\<close> tests for \<open>null\<close>.
\<close>

datatype callback = ShowCallback string | HideCallback

record panel_session =
  controlPanel :: "(nat \<times> string) option"
  controlPanelBridge :: "nat option"
  hideTimeout :: "nat option"
  showTimeout :: "nat option"
  currentPanelAddress :: "string option"
  pendingShowAddress :: "string option"
  now :: nat
  timers :: "(nat \<times> nat \<times> callback) list"
  nextTimerId :: nat
  requests :: "string list"
  bodyPanels :: "(nat \<times> string) list"
  bodyBridges :: "nat list"
  nextElementId :: nat

definition initial_session :: panel_session where
  "initial_session =
     \<lparr> controlPanel = None, controlPanelBridge = None, hideTimeout = None,
       showTimeout = None, currentPanelAddress = None, pendingShowAddress = None,
       now = 0, timers = [], nextTimerId = 1, requests = [], bodyPanels = [],
       bodyBridges = [], nextElementId = 0 \<rparr>"

definition setTimeout :: "callback \<Rightarrow> nat \<Rightarrow> panel_session \<Rightarrow> nat \<times> panel_session" where
  "setTimeout cb delay s =
     (nextTimerId s,
      s\<lparr> timers := timers s @ [(nextTimerId s, now s + delay, cb)],
         nextTimerId := nextTimerId s + 1 \<rparr>)"

definition clearTimeout :: "nat \<Rightarrow> panel_session \<Rightarrow> panel_session" where
  "clearTimeout i s = s\<lparr> timers := filter (\<lambda>t. fst t \<noteq> i) (timers s) \<rparr>"

text \<open>\<open>if (hideTimeout) { clearTimeout(hideTimeout); hideTimeout = null; }\<close>\<close>

definition cancelHide :: "panel_session \<Rightarrow> panel_session" where
  "cancelHide s =
     (case hideTimeout s of
        None \<Rightarrow> s
      | Some i \<Rightarrow> if i \<noteq> 0 then (clearTimeout i s)\<lparr> hideTimeout := None \<rparr> else s)"

text \<open>\<open>if (showTimeout) { clearTimeout(showTimeout); showTimeout = null; }\<close>\<close>

definition cancelShow :: "panel_session \<Rightarrow> panel_session" where
  "cancelShow s =
     (case showTimeout s of
        None \<Rightarrow> s
      | Some i \<Rightarrow> if i \<noteq> 0 then (clearTimeout i s)\<lparr> showTimeout := None \<rparr> else s)"

definition showControlPanel :: "string \<Rightarrow> panel_session \<Rightarrow> panel_session" where
  "showControlPanel addr s =
     (if currentPanelAddress s = Some addr \<and> controlPanel s \<noteq> None
      then cancelHide s
      else
        let s1 = cancelHide s;
            s2 = cancelShow s1;
            s3 = s2\<lparr> pendingShowAddress := Some addr \<rparr>;
            (i, s4) = setTimeout (ShowCallback addr) 300 s3
        in s4\<lparr> showTimeout := Some i \<rparr>)"

text \<open>\<open>if (controlPanel) controlPanel.remove()\<close> and the same for the bridge.\<close>

definition removePanel :: "panel_session \<Rightarrow> panel_session" where
  "removePanel s =
     (case controlPanel s of
        None \<Rightarrow> s
      | Some p \<Rightarrow> s\<lparr> bodyPanels := filter (\<lambda>q. q \<noteq> p) (bodyPanels s) \<rparr>)"

definition removeBridge :: "panel_session \<Rightarrow> panel_session" where
  "removeBridge s =
     (case controlPanelBridge s of
        None \<Rightarrow> s
      | Some b \<Rightarrow> s\<lparr> bodyBridges := filter (\<lambda>q. q \<noteq> b) (bodyBridges s) \<rparr>)"

text \<open>
  \<open>showControlPanelNow\<close> is asynchronous: the call sends the \<open>GET_TAGS\<close> request and
  waits; when the answer arrives the rest of the body runs without another pause.
\<close>

definition showControlPanelNow_call :: "string \<Rightarrow> panel_session \<Rightarrow> panel_session" where
  "showControlPanelNow_call addr s = s\<lparr> requests := requests s @ [addr] \<rparr>"

definition showControlPanelNow_resume :: "string \<Rightarrow> panel_session \<Rightarrow> panel_session" where
  "showControlPanelNow_resume addr s =
     (let s1 = removeBridge (removePanel s);
          p = nextElementId s1;
          b = nextElementId s1 + 1
      in s1\<lparr> currentPanelAddress := Some addr,
              controlPanel := Some (p, addr),
              controlPanelBridge := Some b,
              bodyBridges := bodyBridges s1 @ [b],
              bodyPanels := bodyPanels s1 @ [(p, addr)],
              nextElementId := nextElementId s1 + 2 \<rparr>)"

text \<open>The body of the hide timer's callback, also run by a click outside the panel.\<close>

definition closePanel :: "panel_session \<Rightarrow> panel_session" where
  "closePanel s =
     (let s1 = (removePanel s)\<lparr> controlPanel := None \<rparr>;
          s2 = (removeBridge s1)\<lparr> controlPanelBridge := None \<rparr>
      in s2\<lparr> currentPanelAddress := None \<rparr>)"

definition hideControlPanelDelayed :: "panel_session \<Rightarrow> panel_session" where
  "hideControlPanelDelayed s =
     (let (i, s1) = setTimeout HideCallback 500 s in s1\<lparr> hideTimeout := Some i \<rparr>)"

fun runCallback :: "callback \<Rightarrow> panel_session \<Rightarrow> panel_session" where
  "runCallback (ShowCallback addr) s =
     (if pendingShowAddress s \<noteq> Some addr then s else showControlPanelNow_call addr s)"
| "runCallback HideCallback s = closePanel s"

text \<open>
  The browser's timer queue: the pending timer that is due first, the earlier started
  one among equals. \<open>advance\<close> lets time pass until \<open>t\<close> and runs the callbacks that
  fall due on the way. No callback starts a timer, so at most as many callbacks run as
  timers are pending, which is the fuel \<open>run\<close> gives.
\<close>

fun nextDue :: "(nat \<times> nat \<times> callback) list \<Rightarrow> (nat \<times> nat \<times> callback) option" where
  "nextDue [] = None"
| "nextDue (t # ts) =
     (case nextDue ts of
        None \<Rightarrow> Some t
      | Some u \<Rightarrow> if fst (snd u) < fst (snd t) then Some u else Some t)"

primrec advance :: "nat \<Rightarrow> nat \<Rightarrow> panel_session \<Rightarrow> panel_session" where
  "advance 0 t s = s\<lparr> now := max (now s) t \<rparr>"
| "advance (Suc fuel) t s =
     (case nextDue (timers s) of
        None \<Rightarrow> s\<lparr> now := max (now s) t \<rparr>
      | Some (i, due, cb) \<Rightarrow>
          if due \<le> t
          then advance fuel t (runCallback cb ((clearTimeout i s)\<lparr> now := max (now s) due \<rparr>))
          else s\<lparr> now := max (now s) t \<rparr>)"

definition waitUntil :: "nat \<Rightarrow> panel_session \<Rightarrow> panel_session" where
  "waitUntil t s = advance (length (timers s)) t s"

text \<open>
  What reaches the panel code from outside: \<open>mouseenter\<close> on an address element
  (\<open>showControlPanel\<close>), \<open>mouseleave\<close> from an address element, the panel or the bridge
  (\<open>hideControlPanelDelayed\<close>), \<open>mouseenter\<close> on the panel or the bridge, the answer to a
  \<open>GET_TAGS\<close> request, and a click outside the panel and the bridge. An event sequence
  gives each event its time in milliseconds.
\<close>

datatype event = MouseEnter string | MouseLeave | PanelMouseEnter | TagsResponse string
  | DocumentClick

fun handleEvent :: "event \<Rightarrow> panel_session \<Rightarrow> panel_session" where
  "handleEvent (MouseEnter addr) s = showControlPanel addr s"
| "handleEvent MouseLeave s = hideControlPanelDelayed s"
| "handleEvent PanelMouseEnter s = cancelHide s"
| "handleEvent (TagsResponse addr) s =
     (if addr \<in> set (requests s)
      then showControlPanelNow_resume addr (s\<lparr> requests := remove1 addr (requests s) \<rparr>)
      else s)"
| "handleEvent DocumentClick s = (if controlPanel s \<noteq> None then closePanel s else s)"

fun run :: "(nat \<times> event) list \<Rightarrow> panel_session \<Rightarrow> panel_session" where
  "run [] s = s"
| "run ((t, e) # es) s = run es (handleEvent e (waitUntil t s))"

text \<open>
  Claim C6 fails on the code. The panel of \<open>B\<close> is open; the pointer crosses \<open>A\<close> for
  100 ms and returns to \<open>B\<close>, where it stays. The return takes the early exit of
  \<open>showControlPanel\<close>, which cancels the hide timer only: the show timer of \<open>A\<close> stays
  pending with \<open>pendingShowAddress = A\<close>, fires 300 ms after \<open>A\<close> was entered, passes the
  guard, and the panel of \<open>A\<close> replaces the panel of \<open>B\<close> under a pointer that rests on \<open>B\<close>.
\<close>

theorem stale_show_timer_renders_panel:
  "map snd (bodyPanels (run
      [(0, MouseEnter ''0xB''), (310, TagsResponse ''0xB''),
       (1000, MouseLeave), (1050, MouseEnter ''0xA''),
       (1150, MouseLeave), (1160, MouseEnter ''0xB'')] initial_session)) = [''0xB''] \<and>
   map snd (bodyPanels (waitUntil 5000 (run
      [(0, MouseEnter ''0xB''), (310, TagsResponse ''0xB''),
       (1000, MouseLeave), (1050, MouseEnter ''0xA''),
       (1150, MouseLeave), (1160, MouseEnter ''0xB''),
       (1360, TagsResponse ''0xA'')] initial_session))) = [''0xA'']"
  by code_simp

text \<open>
  Claim C7 fails on the code. Leaving an address element starts the hide timer and
  leaves the show timer of the hover pending: it fires, and the panel is built after
  the pointer has left. Moving back to the address whose panel is open leaves the show
  timer of the address crossed on the way pending. And a second \<open>mouseleave\<close> overwrites
  \<open>hideTimeout\<close> without clearing the first hide timer, which then closes the panel
  although the pointer is back on the address.
\<close>

theorem timers_left_pending:
  "map (snd \<circ> snd) (timers (run
      [(0, MouseEnter ''0xA''), (100, MouseLeave)] initial_session))
     = [ShowCallback ''0xA'', HideCallback] \<and>
   map snd (bodyPanels (waitUntil 400 (run
      [(0, MouseEnter ''0xA''), (100, MouseLeave), (310, TagsResponse ''0xA'')]
      initial_session))) = [''0xA''] \<and>
   (let s = run
      [(0, MouseEnter ''0xB''), (310, TagsResponse ''0xB''),
       (1000, MouseLeave), (1050, MouseEnter ''0xA''),
       (1150, MouseLeave), (1160, MouseEnter ''0xB'')] initial_session
    in currentPanelAddress s = Some ''0xB'' \<and>
       map (snd \<circ> snd) (timers s) = [ShowCallback ''0xA'']) \<and>
   (let s = run
      [(0, MouseEnter ''0xA''), (310, TagsResponse ''0xA''),
       (1000, MouseLeave), (1000, MouseLeave), (1100, MouseEnter ''0xA'')] initial_session
    in hideTimeout s = None \<and> map (snd \<circ> snd) (timers s) = [HideCallback] \<and>
       bodyPanels (waitUntil 1500 s) = [])"
  by code_simp

section \<open>The document (content/index.ts)\<close>

text \<open>
  A node of the document tree is a text node or an element with its tag name in lower
  case, its class list, its other attributes and its children. What the loops over
  \<open>parentElement\<close> read of an element is an \<open>element\<close> record; such a loop runs over a
  chain, the element first, then its parent, up to the document element, and \<open>null\<close> is
  the empty chain. \<open>isDocumentBody\<close> tells \<open>document.body\<close> from the other elements.
\<close>

datatype node = Text string | Element string "string list" "(string \<times> string) list" "node list"

record element =
  tagName :: string
  classList :: "string list"
  attributes :: "(string \<times> string) list"
  isDocumentBody :: bool

definition getAttribute :: "element \<Rightarrow> string \<Rightarrow> string option" where
  "getAttribute e n = map_of (attributes e) n"

definition getAttributeNames :: "element \<Rightarrow> string list" where
  "getAttributeNames e = map fst (attributes e)"

definition contains :: "string list \<Rightarrow> string \<Rightarrow> bool" where
  "contains cl c = (c \<in> set cl)"

text \<open>\<open>node.textContent\<close>, and the children that \<open>element.textContent = s\<close> leaves.\<close>

fun textContent :: "node \<Rightarrow> string" where
  "textContent (Text s) = s"
| "textContent (Element tag cls attrs kids) = concat (map textContent kids)"

definition setTextContent :: "string \<Rightarrow> node list" where
  "setTextContent s = (if s = [] then [] else [Text s])"

text \<open>
  The module-level variables of the content script. A tag of the cache is its name and
  its optional entity. \<open>matchShortAddress\<close> is imported from \<open>utils/address\<close>, which does
  not define it; it is a parameter of the functions that call it.
\<close>

type_synonym tagData = "string \<times> string option"

record globals =
  knownAddresses :: "string list"
  tagCache :: "(string \<times> tagData) list"
  enabled :: bool

fun isAlreadyProcessed :: "element list \<Rightarrow> bool" where
  "isAlreadyProcessed [] = False"
| "isAlreadyProcessed (e # up) =
     (if contains (classList e) ''wt-processed'' \<or>
         contains (classList e) ''wt-address-wrapper'' \<or>
         contains (classList e) ''wt-address-text'' \<or>
         contains (classList e) ''wt-indicator'' \<or>
         contains (classList e) ''wt-control-panel'' \<or>
         contains (classList e) ''wt-control-panel-bridge'' \<or>
         contains (classList e) ''wt-panel-header'' \<or>
         contains (classList e) ''wt-panel-address''
      then True
      else isAlreadyProcessed up)"

text \<open>The filter of the tree walker: \<open>True\<close> is \<open>FILTER_ACCEPT\<close>.\<close>

definition acceptNode :: "element list \<Rightarrow> bool" where
  "acceptNode chain =
     (case chain of
        [] \<Rightarrow> False
      | parent # up \<Rightarrow>
          if tagName parent \<in> set [''script'', ''style'', ''noscript'', ''textarea'', ''input'']
          then False
          else if isAlreadyProcessed chain then False
          else True)"

text \<open>\<open>parent.classList.add('wt-processed')\<close>\<close>

definition markProcessed :: "element \<Rightarrow> element" where
  "markProcessed e =
     e\<lparr> classList := (if contains (classList e) ''wt-processed'' then classList e
                       else classList e @ [''wt-processed'']) \<rparr>"

definition createAddressElement :: "(string \<times> tagData) list \<Rightarrow> string \<Rightarrow> string \<Rightarrow> node" where
  "createAddressElement cache addr displayText =
     (case Map_get cache (normalizeAddress addr) of
        Some tagData \<Rightarrow>
          Element ''span'' [''wt-address-wrapper'', ''wt-has-tag''] [(''data-address'', addr)]
            [Element ''span'' [''wt-tag-label''] [] (setTextContent (fst tagData)),
             Element ''span'' [''wt-tag-short-address''] []
               (setTextContent ('' ('' @ slice 0 6 addr @ '')''))]
      | None \<Rightarrow>
          Element ''span'' [''wt-address-wrapper''] [(''data-address'', addr)]
            [Element ''span'' [''wt-address-text''] [] (setTextContent displayText)])"

text \<open>\<open>/0x[a-fA-F0-9]{40}/i\<close> on an attribute value, and the normalized match.\<close>

definition addressRegex :: regex where
  "addressRegex = [[(isChar CHR ''0'', 1, 1), (isX, 1, 1), (isHexDigit, 40, 40)]]"

definition matchAddress :: "string \<Rightarrow> string option" where
  "matchAddress v =
     (case regex_exec addressRegex v 0 of
        None \<Rightarrow> None
      | Some (index, ls) \<Rightarrow> Some (normalizeAddress (slice index (index + sum_list ls) v)))"

text \<open>The loop over \<open>attributesToCheck\<close>; an absent or empty attribute is skipped.\<close>

fun attributesToCheck_loop :: "string option list \<Rightarrow> string option" where
  "attributesToCheck_loop [] = None"
| "attributesToCheck_loop (attr # rest) =
     (case attr of
        None \<Rightarrow> attributesToCheck_loop rest
      | Some v \<Rightarrow>
          if v = [] then attributesToCheck_loop rest
          else (case matchAddress v of
                  Some a \<Rightarrow> Some a
                | None \<Rightarrow> attributesToCheck_loop rest))"

text \<open>The loop over \<open>getAttributeNames()\<close> for the \<open>data-*\<close> attributes.\<close>

fun dataAttributes_loop :: "element \<Rightarrow> string list \<Rightarrow> string option" where
  "dataAttributes_loop e [] = None"
| "dataAttributes_loop e (attr # rest) =
     (if startsWith attr ''data-''
      then (case getAttribute e attr of
              None \<Rightarrow> dataAttributes_loop e rest
            | Some v \<Rightarrow>
                if v = [] then dataAttributes_loop e rest
                else (case matchAddress v of
                        Some a \<Rightarrow> Some a
                      | None \<Rightarrow> dataAttributes_loop e rest))
      else dataAttributes_loop e rest)"

definition hrefAddress :: "element \<Rightarrow> string option" where
  "hrefAddress e =
     (case getAttribute e ''href'' of
        None \<Rightarrow> None
      | Some href \<Rightarrow>
          if href \<noteq> [] \<and> \<not> str_includes href ''/tx/'' \<and> \<not> str_includes href ''/transaction/''
          then matchAddress href
          else None)"

fun findAddressInAttributes :: "element list \<Rightarrow> string option" where
  "findAddressInAttributes [] = None"
| "findAddressInAttributes (e # up) =
     (if isDocumentBody e then None
      else
        (case attributesToCheck_loop
                [getAttribute e ''title'', getAttribute e ''data-address'',
                 getAttribute e ''data-original-title'', getAttribute e ''data-clipboard-text'',
                 getAttribute e ''data-bs-title''] of
           Some a \<Rightarrow> Some a
         | None \<Rightarrow>
             (case hrefAddress e of
                Some a \<Rightarrow> Some a
              | None \<Rightarrow>
                  (case dataAttributes_loop e (getAttributeNames e) of
                     Some a \<Rightarrow> Some a
                   | None \<Rightarrow> findAddressInAttributes up))))"

text \<open>
  \<open>wrapWithAddressElement\<close> and the functions below return the chain of the parent after
  the call and the nodes that stand in the place of the text node.
\<close>

definition wrapWithAddressElement ::
  "globals \<Rightarrow> element list \<Rightarrow> string \<Rightarrow> nat \<Rightarrow> nat \<Rightarrow> string \<Rightarrow> element list \<times> node list" where
  "wrapWithAddressElement G chain text start len fullAddress =
     (case chain of
        [] \<Rightarrow> (chain, [Text text])
      | parent # up \<Rightarrow>
          (markProcessed parent # up,
           (if start > 0 then [Text (slice 0 start text)] else []) @
           [createAddressElement (tagCache G) fullAddress
              (slice start (start + len) text)] @
           (if start + len < length text
            then [Text (slice (start + len) (length text) text)] else [])))"

text \<open>\<open>parent.closest('a')\<close>\<close>

fun closest_a :: "element list \<Rightarrow> element option" where
  "closest_a [] = None"
| "closest_a (e # up) = (if tagName e = ''a'' then Some e else closest_a up)"

text \<open>
  \<open>/0x[a-fA-F0-9]{2,10}(\.{2,3})[a-fA-F0-9]{2,10}|0x[a-fA-F0-9]{4,8}/i\<close>,
  \<open>/0x[a-fA-F0-9]{2,10}\.{2,3}[a-fA-F0-9]{2,10}/gi\<close> and \<open>/\(0x[a-fA-F0-9]{3,6}\)/gi\<close>
\<close>

definition truncatedMatchRegex :: regex where
  "truncatedMatchRegex =
     [[(isChar CHR ''0'', 1, 1), (isX, 1, 1), (isHexDigit, 2, 10),
       (isChar CHR ''.'', 2, 3), (isHexDigit, 2, 10)],
      [(isChar CHR ''0'', 1, 1), (isX, 1, 1), (isHexDigit, 4, 8)]]"

definition truncatedRegex :: regex where
  "truncatedRegex =
     [[(isChar CHR ''0'', 1, 1), (isX, 1, 1), (isHexDigit, 2, 10),
       (isChar CHR ''.'', 2, 3), (isHexDigit, 2, 10)]]"

definition shortRegex :: regex where
  "shortRegex =
     [[(isChar CHR ''('', 1, 1), (isChar CHR ''0'', 1, 1), (isX, 1, 1), (isHexDigit, 3, 6),
       (isChar CHR '')'', 1, 1)]]"

text \<open>
  The two \<open>while\<close> loops over the matches of a global expression: the first match that
  the matcher resolves to a non-empty address is wrapped.
\<close>

fun known_loop ::
  "(string \<Rightarrow> string list \<Rightarrow> string option) \<Rightarrow> globals \<Rightarrow> element list \<Rightarrow> string \<Rightarrow>
   (nat \<times> nat list) list \<Rightarrow> (element list \<times> node list) option" where
  "known_loop matcher G chain text [] = None"
| "known_loop matcher G chain text ((index, ls) # rest) =
     (case matcher (slice index (index + sum_list ls) text) (knownAddresses G) of
        None \<Rightarrow> known_loop matcher G chain text rest
      | Some matched \<Rightarrow>
          if matched = [] then known_loop matcher G chain text rest
          else Some (wrapWithAddressElement G chain text index (sum_list ls) matched))"

definition processTruncatedAddresses ::
  "(string \<Rightarrow> string list \<Rightarrow> string option) \<Rightarrow> globals \<Rightarrow> element list \<Rightarrow> string \<Rightarrow>
   element list \<times> node list" where
  "processTruncatedAddresses matchShortAddress G chain text =
     (if chain = [] \<or> isAlreadyProcessed chain then (chain, [Text text])
      else
        let href = (case closest_a chain of
                      None \<Rightarrow> []
                    | Some closestLink \<Rightarrow>
                        (case getAttribute closestLink ''href'' of None \<Rightarrow> [] | Some h \<Rightarrow> h))
        in if str_includes href ''/tx/'' \<or> str_includes href ''/transaction/''
           then (chain, [Text text])
           else
             (case (case findAddressInAttributes chain of
                      None \<Rightarrow> None
                    | Some fullAddress \<Rightarrow>
                        if fullAddress \<noteq> [] \<and> str_includes text ''0x''
                        then (case regex_exec truncatedMatchRegex text 0 of
                                None \<Rightarrow> None
                              | Some (index, ls) \<Rightarrow>
                                  Some (wrapWithAddressElement G chain text index (sum_list ls)
                                          fullAddress))
                        else None) of
                Some r \<Rightarrow> r
              | None \<Rightarrow>
                  (case known_loop matchTruncatedAddress G chain text
                          (regex_exec_all truncatedRegex text 0) of
                     Some r \<Rightarrow> r
                   | None \<Rightarrow>
                       (case known_loop matchShortAddress G chain text
                               (regex_exec_all shortRegex text 0) of
                          Some r \<Rightarrow> r
                        | None \<Rightarrow> (chain, [Text text])))))"

text \<open>The loop of \<open>processTextNode\<close> over the matches, with \<open>lastIndex\<close>.\<close>

fun fragment_loop ::
  "(string \<times> tagData) list \<Rightarrow> string \<Rightarrow> nat \<Rightarrow> AddressMatch list \<Rightarrow> node list" where
  "fragment_loop cache text lastIndex [] =
     (if lastIndex < length text then [Text (slice lastIndex (length text) text)] else [])"
| "fragment_loop cache text lastIndex (m # rest) =
     (if startIndex m > lastIndex then [Text (slice lastIndex (startIndex m) text)] else []) @
     [createAddressElement cache (address m) (fullMatch m)] @
     fragment_loop cache text (endIndex m) rest"

definition processTextNode ::
  "(string \<Rightarrow> string list \<Rightarrow> string option) \<Rightarrow> globals \<Rightarrow> element list \<Rightarrow> string \<Rightarrow>
   element list \<times> node list" where
  "processTextNode matchShortAddress G chain text =
     (let matches = findAddressesInText text
      in if length matches = 0
         then (if length (knownAddresses G) > 0
               then processTruncatedAddresses matchShortAddress G chain text
               else (chain, [Text text]))
         else (case chain of
                 [] \<Rightarrow> (chain, [Text text])
               | parent # up \<Rightarrow>
                   (markProcessed parent # up, fragment_loop (tagCache G) text 0 matches)))"

text \<open>
  \<open>scanPage\<close> first collects, in document order, the text nodes that \<open>acceptNode\<close> accepts
  and then processes them in that order. Processing a text node changes the class list
  of its parent and puts nodes in its place, and nothing else; so the two loops are one
  walk in document order that carries two chains for the element at hand: \<open>chain0\<close>, as
  it was when the nodes were collected, which decides \<open>acceptNode\<close>, and \<open>chain\<close>, as the
  processing so far has left it, which \<open>processTextNode\<close> reads and marks. The nodes put
  in place of a text node were not collected and are not visited.
\<close>

fun scanChildren ::
  "(string \<Rightarrow> string list \<Rightarrow> string option) \<Rightarrow> globals \<Rightarrow> element list \<Rightarrow> element list \<Rightarrow>
   node list \<Rightarrow> element list \<times> node list" where
  "scanChildren mS G chain0 chain [] = (chain, [])"
| "scanChildren mS G chain0 chain (Text t # rest) =
     (let (chain1, repl) = (if acceptNode chain0 then processTextNode mS G chain t
                            else (chain, [Text t]));
          (chain2, rest') = scanChildren mS G chain0 chain1 rest
      in (chain2, repl @ rest'))"
| "scanChildren mS G chain0 chain (Element tag cls attrs kids # rest) =
     (let e = \<lparr> tagName = tag, classList = cls, attributes = attrs, isDocumentBody = False \<rparr>;
          (chainE, kids') = scanChildren mS G (e # chain0) (e # chain) kids;
          cls' = (case chainE of [] \<Rightarrow> cls | e' # up \<Rightarrow> classList e');
          (chain2, rest') = scanChildren mS G chain0 chain rest
      in (chain2, Element tag cls' attrs kids' # rest'))"

text \<open>
  The part of the document the content script reads and writes: the class list of the
  document element, and \<open>document.body\<close> with its class list, attributes and children.
\<close>

record document =
  htmlClassList :: "string list"
  bodyClassList :: "string list"
  bodyAttributes :: "(string \<times> string) list"
  bodyChildNodes :: "node list"

definition documentElement :: "document \<Rightarrow> element" where
  "documentElement doc =
     \<lparr> tagName = ''html'', classList = htmlClassList doc, attributes = [],
       isDocumentBody = False \<rparr>"

definition documentBody :: "document \<Rightarrow> element" where
  "documentBody doc =
     \<lparr> tagName = ''body'', classList = bodyClassList doc, attributes = bodyAttributes doc,
       isDocumentBody = True \<rparr>"

definition scanPage ::
  "(string \<Rightarrow> string list \<Rightarrow> string option) \<Rightarrow> globals \<Rightarrow> document \<Rightarrow> document" where
  "scanPage mS G doc =
     (if \<not> enabled G then doc
      else
        let chain = [documentBody doc, documentElement doc];
            (chain', kids') = scanChildren mS G chain chain (bodyChildNodes doc)
        in doc\<lparr> bodyClassList := (case chain' of [] \<Rightarrow> bodyClassList doc | b # up \<Rightarrow> classList b),
                bodyChildNodes := kids' \<rparr>)"

text \<open>
  One scan only adds \<open>wt-processed\<close> to class lists: \<open>ext\<close> relates an element to itself
  and to itself marked, \<open>head_ext\<close> two chains that differ in this way in their first
  element at most.
\<close>

definition ext :: "element \<Rightarrow> element \<Rightarrow> bool" where
  "ext e1 e2 = (e2 = e1 \<or> e2 = markProcessed e1)"

definition head_ext :: "element list \<Rightarrow> element list \<Rightarrow> bool" where
  "head_ext c c' = (case c of [] \<Rightarrow> c' = [] | p # up \<Rightarrow> (\<exists>p'. c' = p' # up \<and> ext p p'))"

lemma markProcessed_idem: "markProcessed (markProcessed e) = markProcessed e"
  unfolding markProcessed_def contains_def by simp

lemma markProcessed_contains: "contains (classList (markProcessed e)) ''wt-processed''"
  unfolding markProcessed_def contains_def by simp

lemma markProcessed_mono: "contains (classList e) c \<Longrightarrow> contains (classList (markProcessed e)) c"
  unfolding markProcessed_def contains_def by simp

lemma ext_refl: "ext e e"
  unfolding ext_def by simp

lemma ext_trans: "ext a b \<Longrightarrow> ext b c \<Longrightarrow> ext a c"
  unfolding ext_def by (auto simp: markProcessed_idem)

lemma chain_ext_refl: "list_all2 ext c c"
  by (simp add: list_all2_refl ext_refl)

lemma chain_ext_trans: "list_all2 ext a b \<Longrightarrow> list_all2 ext b c \<Longrightarrow> list_all2 ext a c"
  by (rule list_all2_trans[of ext ext ext]) (auto intro: ext_trans)

lemma head_ext_chain_ext: "head_ext c c' \<Longrightarrow> list_all2 ext c c'"
  unfolding head_ext_def by (cases c) (auto simp: chain_ext_refl)

lemma head_ext_refl: "head_ext c c"
  unfolding head_ext_def by (cases c) (auto simp: ext_refl)

lemma head_ext_trans: "head_ext a b \<Longrightarrow> head_ext b c \<Longrightarrow> head_ext a c"
  unfolding head_ext_def by (cases a) (auto, blast intro: ext_trans)

lemma head_ext_mark: "head_ext (p # up) (markProcessed p # up)"
  unfolding head_ext_def ext_def by simp

lemma isAlreadyProcessed_marked: "isAlreadyProcessed (markProcessed p # up)"
  using markProcessed_contains[of p] by simp

lemma isAlreadyProcessed_ext:
  "list_all2 ext c1 c2 \<Longrightarrow> isAlreadyProcessed c1 \<Longrightarrow> isAlreadyProcessed c2"
proof (induction c1 c2 rule: list_all2_induct)
  case Nil
  then show ?case by simp
next
  case (Cons e1 c1 e2 c2)
  from Cons.hyps(1) have m: "\<And>c. contains (classList e1) c \<Longrightarrow> contains (classList e2) c"
    unfolding ext_def using markProcessed_mono by auto
  from Cons.prems Cons.IH m show ?case
    by (auto simp del: markProcessed_def split: if_splits)
qed

lemma not_processed_ext_eq:
  "list_all2 ext c1 c2 \<Longrightarrow> \<not> isAlreadyProcessed c2 \<Longrightarrow> c2 = c1"
proof (induction c1 c2 rule: list_all2_induct)
  case Nil
  then show ?case by simp
next
  case (Cons e1 c1 e2 c2)
  from Cons.prems have n: "\<not> contains (classList e2) ''wt-processed''" "\<not> isAlreadyProcessed c2"
    by (auto split: if_splits)
  from Cons.hyps(1) n(1) have "e2 = e1"
    unfolding ext_def using markProcessed_contains[of e1] by auto
  with Cons.IH[OF n(2)] show ?case by simp
qed

lemma acceptNode_ext:
  assumes "list_all2 ext c1 c2" "acceptNode c2"
  shows "c2 = c1"
proof -
  from assms(2) have "\<not> isAlreadyProcessed c2"
    unfolding acceptNode_def by (auto split: list.splits if_splits)
  with assms(1) show ?thesis by (rule not_processed_ext_eq)
qed

lemma wrapWithAddressElement_head_ext:
  "wrapWithAddressElement G chain t i n a = (c', ns) \<Longrightarrow>
     (c' = chain \<and> ns = [Text t]) \<or> (\<exists>p up. chain = p # up \<and> c' = markProcessed p # up)"
  unfolding wrapWithAddressElement_def by (auto split: list.splits)

lemma known_loop_head_ext:
  "known_loop matcher G chain t ms = Some (c', ns) \<Longrightarrow>
     (c' = chain \<and> ns = [Text t]) \<or> (\<exists>p up. chain = p # up \<and> c' = markProcessed p # up)"
proof (induction ms)
  case Nil
  then show ?case by simp
next
  case (Cons m ms)
  obtain i ls where m: "m = (i, ls)" by (cases m)
  from Cons m show ?case
    by (auto split: option.splits if_splits dest: wrapWithAddressElement_head_ext)
qed

lemma processTruncatedAddresses_head_ext:
  "processTruncatedAddresses mS G chain t = (c', ns) \<Longrightarrow>
     (c' = chain \<and> ns = [Text t]) \<or> (\<exists>p up. chain = p # up \<and> c' = markProcessed p # up)"
  unfolding processTruncatedAddresses_def Let_def
  by (auto split: option.splits if_splits prod.splits
           dest: wrapWithAddressElement_head_ext known_loop_head_ext)

lemma processTextNode_head_ext:
  "processTextNode mS G chain t = (c', ns) \<Longrightarrow>
     (c' = chain \<and> ns = [Text t]) \<or> (\<exists>p up. chain = p # up \<and> c' = markProcessed p # up)"
  unfolding processTextNode_def Let_def
  by (auto split: if_splits list.splits dest: processTruncatedAddresses_head_ext)

lemma scanChildren_rejected:
  "isAlreadyProcessed chain0 \<Longrightarrow> scanChildren mS G chain0 chain kids = (chain, kids)"
proof (induction mS G chain0 chain kids rule: scanChildren.induct)
  case (1 mS G chain0 chain)
  then show ?case by simp
next
  case (2 mS G chain0 chain t rest)
  from "2.prems" have na: "\<not> acceptNode chain0"
    unfolding acceptNode_def by (auto split: list.splits)
  with "2.IH"[of "(chain, [Text t])" chain "[Text t]"] "2.prems" show ?case by simp
next
  case (3 mS G chain0 chain tag cls attrs kids rest)
  let ?e = "\<lparr> tagName = tag, classList = cls, attributes = attrs, isDocumentBody = False \<rparr>"
  from "3.prems" have pe: "isAlreadyProcessed (?e # chain0)" by simp
  from "3.IH"(1)[OF refl pe] have k: "scanChildren mS G (?e # chain0) (?e # chain) kids = (?e # chain, kids)" .
  from "3.IH"(2)[OF refl k[symmetric] refl refl "3.prems"]
  have r: "scanChildren mS G chain0 chain rest = (chain, rest)" by simp
  show ?case by (simp add: k r)
qed

lemma scanChildren_append:
  "scanChildren mS G chain0 chain (xs @ ys) =
     (let (c1, xs') = scanChildren mS G chain0 chain xs;
          (c2, ys') = scanChildren mS G chain0 c1 ys
      in (c2, xs' @ ys'))"
proof (induction mS G chain0 chain xs rule: scanChildren.induct)
  case (1 mS G chain0 chain)
  then show ?case by (simp split: prod.splits)
next
  case (2 mS G chain0 chain t rest)
  obtain chain1 repl where p: "(if acceptNode chain0 then processTextNode mS G chain t
                            else (chain, [Text t])) = (chain1, repl)" by force
  from "2.IH"[OF p[symmetric] refl] p show ?case
    by (simp add: Let_def split: prod.splits)
next
  case (3 mS G chain0 chain tag cls attrs kids rest)
  let ?e = "\<lparr> tagName = tag, classList = cls, attributes = attrs, isDocumentBody = False \<rparr>"
  obtain chainE kids' where k: "scanChildren mS G (?e # chain0) (?e # chain) kids = (chainE, kids')"
    by force
  from "3.IH"(2)[OF refl k[symmetric] refl refl] k show ?case
    by (simp add: Let_def split: prod.splits)
qed

lemma scanChildren_head_ext:
  "scanChildren mS G chain0 chain kids = (chain', kids') \<Longrightarrow> head_ext chain chain'"
proof (induction mS G chain0 chain kids arbitrary: chain' kids' rule: scanChildren.induct)
  case (1 mS G chain0 chain)
  then show ?case by (simp add: head_ext_refl)
next
  case (2 mS G chain0 chain t rest)
  obtain chain1 repl where p: "(if acceptNode chain0 then processTextNode mS G chain t
                            else (chain, [Text t])) = (chain1, repl)" by force
  obtain chain2 rest' where r: "scanChildren mS G chain0 chain1 rest = (chain2, rest')" by force
  from "2.prems" p r have c: "chain' = chain2" by (simp add: Let_def)
  have h1: "head_ext chain chain1"
  proof (cases "acceptNode chain0")
    case True
    with p have "processTextNode mS G chain t = (chain1, repl)" by simp
    from processTextNode_head_ext[OF this] show ?thesis
      by (auto simp: head_ext_refl head_ext_mark)
  next
    case False
    with p show ?thesis by (simp add: head_ext_refl)
  qed
  from "2.IH"[OF p[symmetric] refl r] have "head_ext chain1 chain2" .
  with h1 c show ?case by (auto intro: head_ext_trans)
next
  case (3 mS G chain0 chain tag cls attrs kids rest)
  let ?e = "\<lparr> tagName = tag, classList = cls, attributes = attrs, isDocumentBody = False \<rparr>"
  obtain chainE kidsE where k: "scanChildren mS G (?e # chain0) (?e # chain) kids = (chainE, kidsE)"
    by force
  obtain chain2 rest' where r: "scanChildren mS G chain0 chain rest = (chain2, rest')" by force
  from "3.prems" k r have c: "chain' = chain2" by (simp add: Let_def)
  from "3.IH"(2)[OF refl k[symmetric] refl refl r] c show ?case by simp
qed

lemma ext_element:
  assumes "ext \<lparr> tagName = tag, classList = cls, attributes = attrs, isDocumentBody = b \<rparr> e'"
  shows "e' = \<lparr> tagName = tag, classList = classList e', attributes = attrs, isDocumentBody = b \<rparr>"
  using assms unfolding ext_def markProcessed_def by auto

lemma scan_stable:
  "scanChildren mS G chain0 chain kids = (chain', kids') \<Longrightarrow> list_all2 ext chain0 chain \<Longrightarrow>
   list_all2 ext chain' c2 \<Longrightarrow> scanChildren mS G c2 c2 kids' = (c2, kids')"
proof (induction mS G chain0 chain kids arbitrary: chain' kids' c2 rule: scanChildren.induct)
  case (1 mS G chain0 chain)
  then show ?case by simp
next
  case (2 mS G chain0 chain t rest)
  obtain chain1 repl where p: "(if acceptNode chain0 then processTextNode mS G chain t
                            else (chain, [Text t])) = (chain1, repl)" by force
  obtain chain2 rest' where r: "scanChildren mS G chain0 chain1 rest = (chain2, rest')" by force
  from "2.prems"(1) p r have c: "chain' = chain2" "kids' = repl @ rest'" by (simp_all add: Let_def)
  have h1: "head_ext chain chain1"
  proof (cases "acceptNode chain0")
    case True
    with p have "processTextNode mS G chain t = (chain1, repl)" by simp
    from processTextNode_head_ext[OF this] show ?thesis
      by (auto simp: head_ext_refl head_ext_mark)
  next
    case False
    with p show ?thesis by (simp add: head_ext_refl)
  qed
  have e01: "list_all2 ext chain0 chain1"
    using "2.prems"(2) h1 by (auto intro: chain_ext_trans head_ext_chain_ext)
  have e12: "list_all2 ext chain1 chain2"
    using scanChildren_head_ext[OF r] by (rule head_ext_chain_ext)
  have e1c: "list_all2 ext chain1 c2"
    using e12 "2.prems"(3) c(1) by (auto intro: chain_ext_trans)
  have e0c: "list_all2 ext chain0 c2"
    using e01 e1c by (rule chain_ext_trans)
  have ecc: "list_all2 ext chain c2"
    using head_ext_chain_ext[OF h1] e1c by (rule chain_ext_trans)
  from "2.IH"[OF p[symmetric] refl r e01] "2.prems"(3) c(1)
  have rest_stable: "scanChildren mS G c2 c2 rest' = (c2, rest')" by simp
  have repl_stable: "scanChildren mS G c2 c2 repl = (c2, repl)"
  proof (cases "isAlreadyProcessed c2")
    case True
    then show ?thesis by (rule scanChildren_rejected)
  next
    case np: False
    from not_processed_ext_eq[OF e0c np] have c20: "c2 = chain0" .
    from not_processed_ext_eq[OF ecc np] have c2c: "c2 = chain" .
    from not_processed_ext_eq[OF e1c np] have c21: "c2 = chain1" .
    show ?thesis
    proof (cases "acceptNode chain0")
      case True
      with p have pt: "processTextNode mS G chain t = (chain1, repl)" by simp
      from processTextNode_head_ext[OF pt] show ?thesis
      proof
        assume "chain1 = chain \<and> repl = [Text t]"
        with pt True c20 c2c show ?thesis by simp
      next
        assume "\<exists>p up. chain = p # up \<and> chain1 = markProcessed p # up"
        then have "isAlreadyProcessed chain1"
          by (auto intro: isAlreadyProcessed_marked simp del: isAlreadyProcessed.simps)
        with np c21 show ?thesis by simp
      qed
    next
      case False
      with p have "chain1 = chain" "repl = [Text t]" by simp_all
      with False c20 show ?thesis by simp
    qed
  qed
  show ?case
    unfolding c(2) scanChildren_append by (simp add: repl_stable rest_stable)
next
  case (3 mS G chain0 chain tag cls attrs kids rest)
  let ?e = "\<lparr> tagName = tag, classList = cls, attributes = attrs, isDocumentBody = False \<rparr>"
  obtain chainE kidsE where k: "scanChildren mS G (?e # chain0) (?e # chain) kids = (chainE, kidsE)"
    by force
  obtain chain2 rest' where r: "scanChildren mS G chain0 chain rest = (chain2, rest')" by force
  from scanChildren_head_ext[OF k] obtain e' where
    ce: "chainE = e' # chain" and ee: "ext ?e e'"
    unfolding head_ext_def by auto
  from "3.prems"(1) k r ce have c: "chain' = chain2"
    "kids' = Element tag (classList e') attrs kidsE # rest'" by (simp_all add: Let_def)
  note e'_eq = ext_element[OF ee]
  have e2c: "list_all2 ext chain chain2"
    using scanChildren_head_ext[OF r] by (rule head_ext_chain_ext)
  have ecc: "list_all2 ext chain c2"
    using e2c "3.prems"(3) c(1) by (auto intro: chain_ext_trans)
  have "list_all2 ext chainE (e' # c2)"
    using ce ecc by (simp add: ext_refl)
  from "3.IH"(1)[OF refl k _ this] "3.prems"(2)
  have kids_stable: "scanChildren mS G (e' # c2) (e' # c2) kidsE = (e' # c2, kidsE)"
    by (simp add: ext_refl)
  from "3.IH"(2)[OF refl k[symmetric] refl refl r "3.prems"(2)] "3.prems"(3) c(1)
  have rest_stable: "scanChildren mS G c2 c2 rest' = (c2, rest')" by simp
  have "scanChildren mS G c2 c2 (Element tag (classList e') attrs kidsE # rest')
          = (c2, Element tag (classList e') attrs kidsE # rest')"
    using kids_stable rest_stable e'_eq by (simp add: Let_def)
  with c(2) show ?case by simp
qed

lemma scanPage_twice:
  "scanPage matchShortAddress G (scanPage matchShortAddress G doc) = scanPage matchShortAddress G doc"
proof (cases "enabled G")
  case False
  then show ?thesis by (simp add: scanPage_def)
next
  case True
  let ?c = "[documentBody doc, documentElement doc]"
  obtain c' kids' where s: "scanChildren matchShortAddress G ?c ?c (bodyChildNodes doc) = (c', kids')"
    by force
  from scanChildren_head_ext[OF s] obtain b' where
    c': "c' = [b', documentElement doc]" and eb: "ext (documentBody doc) b'"
    unfolding head_ext_def by auto
  from eb have b'_eq: "b' = \<lparr> tagName = ''body'', classList = classList b',
      attributes = bodyAttributes doc, isDocumentBody = True \<rparr>"
    unfolding documentBody_def by (rule ext_element)
  let ?doc1 = "doc\<lparr> bodyClassList := classList b', bodyChildNodes := kids' \<rparr>"
  have d1: "scanPage matchShortAddress G doc = ?doc1"
    using True s c' by (simp add: scanPage_def)
  have body1: "documentBody ?doc1 = b'"
    using b'_eq by (simp add: documentBody_def)
  have html1: "documentElement ?doc1 = documentElement doc"
    by (simp add: documentElement_def)
  have "scanChildren matchShortAddress G c' c' kids' = (c', kids')"
    using s by (rule scan_stable) (simp_all add: ext_refl chain_ext_refl)
  then have "scanPage matchShortAddress G ?doc1 = ?doc1"
    using True c' body1 html1 by (simp add: scanPage_def)
  with d1 show ?thesis by simp
qed


text \<open>
  Claim C1. Running \<open>scanPage\<close> on the document that \<open>scanPage\<close> has left gives that
  document again, for every document, every tag cache and list of known addresses, and
  whatever \<open>matchShortAddress\<close> answers. And below an element that carries the marker or
  one of the classes of the injected elements, or has an ancestor that does, the walk
  changes nothing, whatever the text says.
\<close>

theorem scanPage_idempotent:
  "scanPage matchShortAddress G (scanPage matchShortAddress G doc)
     = scanPage matchShortAddress G doc \<and>
   (isAlreadyProcessed chain0 \<longrightarrow>
      scanChildren matchShortAddress G chain0 chain kids = (chain, kids))"
  using scanPage_twice scanChildren_rejected by blast

theorem scanPage_idempotent_witness:
  "scanPage (\<lambda>s k. None)
     \<lparr> knownAddresses = [''0xabc0000000000000000000000000000000000def''],
       tagCache = [(''0xabc0000000000000000000000000000000000def'', (''Alice'', None))],
       enabled = True \<rparr>
     \<lparr> htmlClassList = [], bodyClassList = [], bodyAttributes = [],
       bodyChildNodes =
         [Element ''p'' [] [] [Text ''pay 0xABC0000000000000000000000000000000000DEF now'',
            Element ''b'' [] [] [Text ''0xabc...def'']],
          Element ''a'' [] [(''title'', ''0x9990000000000000000000000000000000000999'')]
            [Text ''0x999...999'']] \<rparr>
   = \<lparr> htmlClassList = [], bodyClassList = [], bodyAttributes = [],
       bodyChildNodes =
         [Element ''p'' [''wt-processed''] []
            [Text ''pay '',
             Element ''span'' [''wt-address-wrapper'', ''wt-has-tag'']
               [(''data-address'', ''0xabc0000000000000000000000000000000000def'')]
               [Element ''span'' [''wt-tag-label''] [] [Text ''Alice''],
                Element ''span'' [''wt-tag-short-address''] [] [Text '' (0xabc0)'']],
             Text '' now'',
             Element ''b'' [] [] [Text ''0xabc...def'']],
          Element ''a'' [''wt-processed'']
            [(''title'', ''0x9990000000000000000000000000000000000999'')]
            [Element ''span'' [''wt-address-wrapper'']
               [(''data-address'', ''0x9990000000000000000000000000000000000999'')]
               [Element ''span'' [''wt-address-text''] [] [Text ''0x999...999'']]]] \<rparr> \<and>
   scanPage (\<lambda>s k. None)
     \<lparr> knownAddresses = [''0xabc0000000000000000000000000000000000def''],
       tagCache = [(''0xabc0000000000000000000000000000000000def'', (''Alice'', None))],
       enabled = True \<rparr>
     \<lparr> htmlClassList = [], bodyClassList = [], bodyAttributes = [],
       bodyChildNodes =
         [Element ''p'' [''wt-processed''] []
            [Text ''pay '',
             Element ''span'' [''wt-address-wrapper'', ''wt-has-tag'']
               [(''data-address'', ''0xabc0000000000000000000000000000000000def'')]
               [Element ''span'' [''wt-tag-label''] [] [Text ''Alice''],
                Element ''span'' [''wt-tag-short-address''] [] [Text '' (0xabc0)'']],
             Text '' now'',
             Element ''b'' [] [] [Text ''0xabc...def'']],
          Element ''a'' [''wt-processed'']
            [(''title'', ''0x9990000000000000000000000000000000000999'')]
            [Element ''span'' [''wt-address-wrapper'']
               [(''data-address'', ''0x9990000000000000000000000000000000000999'')]
               [Element ''span'' [''wt-address-text''] [] [Text ''0x999...999'']]]] \<rparr>
   = \<lparr> htmlClassList = [], bodyClassList = [], bodyAttributes = [],
       bodyChildNodes =
         [Element ''p'' [''wt-processed''] []
            [Text ''pay '',
             Element ''span'' [''wt-address-wrapper'', ''wt-has-tag'']
               [(''data-address'', ''0xabc0000000000000000000000000000000000def'')]
               [Element ''span'' [''wt-tag-label''] [] [Text ''Alice''],
                Element ''span'' [''wt-tag-short-address''] [] [Text '' (0xabc0)'']],
             Text '' now'',
             Element ''b'' [] [] [Text ''0xabc...def'']],
          Element ''a'' [''wt-processed'']
            [(''title'', ''0x9990000000000000000000000000000000000999'')]
            [Element ''span'' [''wt-address-wrapper'']
               [(''data-address'', ''0x9990000000000000000000000000000000000999'')]
               [Element ''span'' [''wt-address-text''] [] [Text ''0x999...999'']]]] \<rparr> \<and>
   isAlreadyProcessed
     [\<lparr> tagName = ''span'', classList = [''wt-address-text''], attributes = [],
        isDocumentBody = False \<rparr>] \<and>
   scanChildren (\<lambda>s k. None)
     \<lparr> knownAddresses = [''0xabc0000000000000000000000000000000000def''],
       tagCache = [(''0xabc0000000000000000000000000000000000def'', (''Alice'', None))],
       enabled = True \<rparr>
     [\<lparr> tagName = ''span'', classList = [''wt-address-text''], attributes = [],
        isDocumentBody = False \<rparr>]
     [\<lparr> tagName = ''span'', classList = [''wt-address-text''], attributes = [],
        isDocumentBody = False \<rparr>]
     [Text ''0x9990000000000000000000000000000000000999'']
   = ([\<lparr> tagName = ''span'', classList = [''wt-address-text''], attributes = [],
        isDocumentBody = False \<rparr>],
      [Text ''0x9990000000000000000000000000000000000999''])"
proof -
  let ?G = "\<lparr> knownAddresses = [''0xabc0000000000000000000000000000000000def''],
       tagCache = [(''0xabc0000000000000000000000000000000000def'', (''Alice'', None))],
       enabled = True \<rparr>"
  let ?doc = "\<lparr> htmlClassList = [], bodyClassList = [], bodyAttributes = [],
       bodyChildNodes =
         [Element ''p'' [] [] [Text ''pay 0xABC0000000000000000000000000000000000DEF now'',
            Element ''b'' [] [] [Text ''0xabc...def'']],
          Element ''a'' [] [(''title'', ''0x9990000000000000000000000000000000000999'')]
            [Text ''0x999...999'']] \<rparr>"
  let ?doc' = "\<lparr> htmlClassList = [], bodyClassList = [], bodyAttributes = [],
       bodyChildNodes =
         [Element ''p'' [''wt-processed''] []
            [Text ''pay '',
             Element ''span'' [''wt-address-wrapper'', ''wt-has-tag'']
               [(''data-address'', ''0xabc0000000000000000000000000000000000def'')]
               [Element ''span'' [''wt-tag-label''] [] [Text ''Alice''],
                Element ''span'' [''wt-tag-short-address''] [] [Text '' (0xabc0)'']],
             Text '' now'',
             Element ''b'' [] [] [Text ''0xabc...def'']],
          Element ''a'' [''wt-processed'']
            [(''title'', ''0x9990000000000000000000000000000000000999'')]
            [Element ''span'' [''wt-address-wrapper'']
               [(''data-address'', ''0x9990000000000000000000000000000000000999'')]
               [Element ''span'' [''wt-address-text''] [] [Text ''0x999...999'']]]] \<rparr>"
  let ?c = "[\<lparr> tagName = ''span'', classList = [''wt-address-text''], attributes = [],
        isDocumentBody = False \<rparr>]"
  have first: "scanPage (\<lambda>s k. None) ?G ?doc = ?doc'" by code_simp
  have p: "isAlreadyProcessed ?c" by code_simp
  note t = scanPage_idempotent[of "\<lambda>s k. None" ?G ?doc ?c ?c
      "[Text ''0x9990000000000000000000000000000000000999'']"]
  from t have "scanPage (\<lambda>s k. None) ?G (scanPage (\<lambda>s k. None) ?G ?doc)
     = scanPage (\<lambda>s k. None) ?G ?doc" by (rule conjunct1)
  then have second: "scanPage (\<lambda>s k. None) ?G ?doc' = ?doc'" by (simp only: first)
  from t p have skip: "scanChildren (\<lambda>s k. None) ?G ?c ?c
     [Text ''0x9990000000000000000000000000000000000999'']
     = (?c, [Text ''0x9990000000000000000000000000000000000999''])" by blast
  from first second p skip show ?thesis by (intro conjI)
qed

section \<open>Truncated display strings with runs of 9 or 10 digits\<close>

text \<open>
  Claim C3 fails on the code. \<open>processTruncatedAddresses\<close> finds display strings with runs
  of 2 to 10 hexadecimal digits and hands each to \<open>matchTruncatedAddress\<close>, whose own
  expression takes runs of 3 to 8 digits and is not anchored at the end. Of a suffix of 9
  digits it reads the first 8: for \<open>0xabc...123456789\<close> it returns the known address that
  ends in \<open>12345678\<close>, which does not end in the suffix shown, although the list holds,
  before it, the address that agrees with the display string on both sides; and the text
  node is wrapped for the wrong address, under the wrong tag. With a prefix of 9 digits
  the expression matches nowhere: for \<open>0x123456789...abc\<close> the function returns \<open>null\<close>
  although the known address agrees on both sides.
\<close>

theorem matchTruncatedAddress_cuts_long_runs:
  "regex_exec_all truncatedRegex ''to 0xabc...123456789'' 0 = [(3, [1, 1, 3, 3, 9])] \<and>
   slice 3 (3 + sum_list [1, 1, 3, 3, 9]) ''to 0xabc...123456789'' = ''0xabc...123456789'' \<and>
   truncated_parts 10 CHR ''x'' ''abc'' ''...'' ''123456789'' \<and>
   find (sides_match ''abc'' ''123456789'')
     [''0xabc0000000000000000000000000000123456789'',
      ''0xabc0000000000000000000000000000012345678'']
     = Some ''0xabc0000000000000000000000000000123456789'' \<and>
   matchTruncatedAddress ''0xabc...123456789''
     [''0xabc0000000000000000000000000000123456789'',
      ''0xabc0000000000000000000000000000012345678'']
     = Some ''0xabc0000000000000000000000000000012345678'' \<and>
   processTextNode (\<lambda>s k. None)
     \<lparr> knownAddresses =
         [''0xabc0000000000000000000000000000123456789'',
          ''0xabc0000000000000000000000000000012345678''],
       tagCache =
         [(''0xabc0000000000000000000000000000123456789'', (''Bob'', None)),
          (''0xabc0000000000000000000000000000012345678'', (''Alice'', None))],
       enabled = True \<rparr>
     [\<lparr> tagName = ''p'', classList = [], attributes = [], isDocumentBody = False \<rparr>]
     ''to 0xabc...123456789''
     = ([\<lparr> tagName = ''p'', classList = [''wt-processed''], attributes = [],
            isDocumentBody = False \<rparr>],
        [Text ''to '',
         Element ''span'' [''wt-address-wrapper'', ''wt-has-tag'']
           [(''data-address'', ''0xabc0000000000000000000000000000012345678'')]
           [Element ''span'' [''wt-tag-label''] [] [Text ''Alice''],
            Element ''span'' [''wt-tag-short-address''] [] [Text '' (0xabc0)'']]]) \<and>
   regex_exec_all truncatedRegex ''0x123456789...abc'' 0 = [(0, [1, 1, 9, 3, 3])] \<and>
   truncated_parts 10 CHR ''x'' ''123456789'' ''...'' ''abc'' \<and>
   find (sides_match ''123456789'' ''abc'') [''0x1234567890000000000000000000000000000abc'']
     = Some ''0x1234567890000000000000000000000000000abc'' \<and>
   matchTruncatedAddress ''0x123456789...abc'' [''0x1234567890000000000000000000000000000abc'']
     = None"
  by code_simp

section \<open>Transaction links\<close>

text \<open>
  An element whose \<open>href\<close> contains \<open>/tx/\<close> or \<open>/transaction/\<close>, and the element without that
  attribute.
\<close>

definition removeAttribute :: "element \<Rightarrow> string \<Rightarrow> element" where
  "removeAttribute e n = e\<lparr> attributes := filter (\<lambda>kv. fst kv \<noteq> n) (attributes e) \<rparr>"

definition isTransactionHref :: "element \<Rightarrow> bool" where
  "isTransactionHref e =
     (case getAttribute e ''href'' of
        None \<Rightarrow> False
      | Some h \<Rightarrow> str_includes h ''/tx/'' \<or> str_includes h ''/transaction/'')"

definition withoutTransactionHref :: "element \<Rightarrow> element" where
  "withoutTransactionHref e = (if isTransactionHref e then removeAttribute e ''href'' else e)"

lemma map_of_filter_other:
  "n \<noteq> m \<Longrightarrow> map_of (filter (\<lambda>kv. fst kv \<noteq> m) xs) n = map_of xs n"
  by (induction xs) auto

lemma map_of_filter_same: "map_of (filter (\<lambda>kv. fst kv \<noteq> m) xs) m = None"
  by (induction xs) auto

lemma getAttribute_removeAttribute:
  "n \<noteq> m \<Longrightarrow> getAttribute (removeAttribute e m) n = getAttribute e n"
  unfolding getAttribute_def removeAttribute_def by (simp add: map_of_filter_other)

lemma getAttribute_removeAttribute_same: "getAttribute (removeAttribute e m) m = None"
  unfolding getAttribute_def removeAttribute_def by (simp add: map_of_filter_same)

lemma hrefAddress_transaction: "isTransactionHref e \<Longrightarrow> hrefAddress e = None"
  unfolding isTransactionHref_def hrefAddress_def by (auto split: option.splits)

lemma hrefAddress_removed: "hrefAddress (removeAttribute e ''href'') = None"
  unfolding hrefAddress_def by (simp add: getAttribute_removeAttribute_same)

lemma not_data_href: "\<not> startsWith ''href'' ''data-''"
  unfolding startsWith_def by simp

lemma dataAttributes_loop_removed:
  "dataAttributes_loop (removeAttribute e ''href'') (filter (\<lambda>n. n \<noteq> ''href'') names)
     = dataAttributes_loop e names"
proof (induction names)
  case Nil
  then show ?case by simp
next
  case (Cons n names)
  show ?case
  proof (cases "n = ''href''")
    case True
    with Cons show ?thesis using not_data_href by simp
  next
    case False
    with Cons show ?thesis by (simp add: getAttribute_removeAttribute split: option.splits)
  qed
qed

lemma getAttributeNames_removed:
  "getAttributeNames (removeAttribute e m) = filter (\<lambda>n. n \<noteq> m) (getAttributeNames e)"
  unfolding getAttributeNames_def removeAttribute_def by (simp add: filter_map comp_def)

lemma findAddressInAttributes_step:
  assumes "isTransactionHref e"
  shows "findAddressInAttributes (removeAttribute e ''href'' # up) =
         findAddressInAttributes (e # up)"
proof -
  have b: "isDocumentBody (removeAttribute e ''href'') = isDocumentBody e"
    unfolding removeAttribute_def by simp
  have g: "\<And>n. n \<noteq> ''href'' \<Longrightarrow> getAttribute (removeAttribute e ''href'') n = getAttribute e n"
    by (rule getAttribute_removeAttribute)
  show ?thesis
    by (simp add: b g hrefAddress_removed hrefAddress_transaction[OF assms]
        getAttributeNames_removed dataAttributes_loop_removed
        del: attributesToCheck_loop.simps cong: option.case_cong)
qed

lemma findAddressInAttributes_cong_tail:
  "findAddressInAttributes up = findAddressInAttributes up' \<Longrightarrow>
   findAddressInAttributes (e # up) = findAddressInAttributes (e # up')"
  by (simp del: attributesToCheck_loop.simps split: option.splits)

lemma findAddressInAttributes_without:
  "findAddressInAttributes (map withoutTransactionHref chain) = findAddressInAttributes chain"
proof (induction chain)
  case Nil
  then show ?case by simp
next
  case (Cons e up)
  show ?case
  proof (cases "isTransactionHref e")
    case True
    have "findAddressInAttributes (map withoutTransactionHref (e # up))
            = findAddressInAttributes (removeAttribute e ''href'' # map withoutTransactionHref up)"
      using True by (simp add: withoutTransactionHref_def)
    also have "\<dots> = findAddressInAttributes (removeAttribute e ''href'' # up)"
      using Cons.IH by (rule findAddressInAttributes_cong_tail)
    also have "\<dots> = findAddressInAttributes (e # up)"
      using True by (rule findAddressInAttributes_step)
    finally show ?thesis .
  next
    case False
    have "findAddressInAttributes (map withoutTransactionHref (e # up))
            = findAddressInAttributes (e # map withoutTransactionHref up)"
      using False by (simp add: withoutTransactionHref_def)
    also have "\<dots> = findAddressInAttributes (e # up)"
      using Cons.IH by (rule findAddressInAttributes_cong_tail)
    finally show ?thesis .
  qed
qed

lemma processTruncatedAddresses_transaction_link:
  assumes "closest_a chain = Some l" "isTransactionHref l"
  shows "processTruncatedAddresses mS G chain t = (chain, [Text t])"
  using assms unfolding processTruncatedAddresses_def isTransactionHref_def Let_def
  by (auto split: option.splits)

text \<open>
  Claim C9. \<open>findAddressInAttributes\<close> returns the same for a chain and for the chain in
  which every \<open>href\<close> that contains \<open>/tx/\<close> or \<open>/transaction/\<close> has been deleted: no address
  it returns comes from such an \<open>href\<close>. And when the closest link of a text node has such
  an \<open>href\<close>, \<open>processTruncatedAddresses\<close> leaves the text node as it is.
\<close>

theorem transaction_href_never_read:
  "findAddressInAttributes (map withoutTransactionHref chain) = findAddressInAttributes chain \<and>
   (closest_a chain = Some link \<and> isTransactionHref link \<longrightarrow>
      processTruncatedAddresses matchShortAddress G chain t = (chain, [Text t]))"
  using findAddressInAttributes_without processTruncatedAddresses_transaction_link by blast

theorem transaction_href_never_read_witness:
  "isTransactionHref \<lparr> tagName = ''a'', classList = [],
       attributes = [(''href'', ''/tx/0xdeadbeef00000000000000000000000000000000000000000000000000000000'')],
       isDocumentBody = False \<rparr> \<and>
   matchAddress ''/tx/0xdeadbeef00000000000000000000000000000000000000000000000000000000''
     = Some ''0xdeadbeef00000000000000000000000000000000'' \<and>
   findAddressInAttributes [\<lparr> tagName = ''a'', classList = [],
       attributes = [(''href'', ''/tx/0xdeadbeef00000000000000000000000000000000000000000000000000000000'')],
       isDocumentBody = False \<rparr>] = None \<and>
   processTruncatedAddresses (\<lambda>s k. None)
     \<lparr> knownAddresses = [''0xdeadbeef00000000000000000000000000000000''], tagCache = [],
       enabled = True \<rparr>
     [\<lparr> tagName = ''a'', classList = [],
       attributes = [(''href'', ''/tx/0xdeadbeef00000000000000000000000000000000000000000000000000000000'')],
       isDocumentBody = False \<rparr>] ''0xdead...0000''
     = ([\<lparr> tagName = ''a'', classList = [],
       attributes = [(''href'', ''/tx/0xdeadbeef00000000000000000000000000000000000000000000000000000000'')],
       isDocumentBody = False \<rparr>], [Text ''0xdead...0000''])"
proof -
  let ?l = "\<lparr> tagName = ''a'', classList = [],
       attributes = [(''href'', ''/tx/0xdeadbeef00000000000000000000000000000000000000000000000000000000'')],
       isDocumentBody = False \<rparr>"
  have h: "isTransactionHref ?l" by code_simp
  have m: "matchAddress ''/tx/0xdeadbeef00000000000000000000000000000000000000000000000000000000''
     = Some ''0xdeadbeef00000000000000000000000000000000''" by code_simp
  have w: "map withoutTransactionHref [?l] = [\<lparr> tagName = ''a'', classList = [],
       attributes = [], isDocumentBody = False \<rparr>]" by code_simp
  have n: "findAddressInAttributes [\<lparr> tagName = ''a'', classList = [],
       attributes = [], isDocumentBody = False \<rparr>] = None" by code_simp
  have c: "closest_a [?l] = Some ?l" by simp
  note t = transaction_href_never_read[of "[?l]" ?l "\<lambda>s k. None"
      "\<lparr> knownAddresses = [''0xdeadbeef00000000000000000000000000000000''], tagCache = [],
         enabled = True \<rparr>" "''0xdead...0000''"]
  from t have "findAddressInAttributes (map withoutTransactionHref [?l]) = findAddressInAttributes [?l]"
    by (rule conjunct1)
  with w n have f: "findAddressInAttributes [?l] = None" by (simp only:)
  from t c h have p: "processTruncatedAddresses (\<lambda>s k. None)
     \<lparr> knownAddresses = [''0xdeadbeef00000000000000000000000000000000''], tagCache = [],
       enabled = True \<rparr> [?l] ''0xdead...0000'' = ([?l], [Text ''0xdead...0000''])"
    by blast
  from h m f p show ?thesis by (intro conjI)
qed

section \<open>Replacement of a text node\<close>

text \<open>
  The addresses of the address elements among some nodes, read from \<open>data-address\<close>,
  where \<open>createAddressElement\<close> stores the address it was called with.
\<close>

fun wrapperAddresses :: "node list \<Rightarrow> string list" where
  "wrapperAddresses [] = []"
| "wrapperAddresses (Text s # ns) = wrapperAddresses ns"
| "wrapperAddresses (Element tag cls attrs kids # ns) =
     (if contains cls ''wt-address-wrapper''
      then (case map_of attrs ''data-address'' of None \<Rightarrow> [] | Some a \<Rightarrow> [a])
      else []) @ wrapperAddresses ns"

text \<open>Matches in ascending order from an index on, each inside the text with its slice.\<close>

fun matches_from :: "nat \<Rightarrow> string \<Rightarrow> AddressMatch list \<Rightarrow> bool" where
  "matches_from i text [] = True"
| "matches_from i text (m # ms) =
     (i \<le> startIndex m \<and> startIndex m \<le> endIndex m \<and> endIndex m \<le> length text \<and>
      fullMatch m = slice (startIndex m) (endIndex m) text \<and>
      matches_from (endIndex m) text ms)"

lemma wrapperAddresses_append:
  "wrapperAddresses (xs @ ys) = wrapperAddresses xs @ wrapperAddresses ys"
  by (induction xs rule: wrapperAddresses.induct) auto

lemma wrapperAddresses_create:
  "wrapperAddresses (createAddressElement cache a d # ns) = a # wrapperAddresses ns"
  by (simp add: createAddressElement_def contains_def split: option.splits)

lemma textContent_create:
  "Map_get cache (normalizeAddress a) = None \<Longrightarrow> textContent (createAddressElement cache a d) = d"
  unfolding createAddressElement_def setTextContent_def by simp

lemma matches_from_disjoint:
  assumes "disjoint_from i text (map startIndex ms)"
    and "\<And>m. m \<in> set ms \<Longrightarrow> endIndex m = startIndex m + 42 \<and>
           fullMatch m = slice (startIndex m) (startIndex m + 42) text"
  shows "matches_from i text ms"
  using assms
proof (induction ms arbitrary: i)
  case Nil
  then show ?case by simp
next
  case (Cons m ms)
  from Cons.prems(1) have d: "i \<le> startIndex m" "occurs_at text (startIndex m)"
    "disjoint_from (startIndex m + 42) text (map startIndex ms)" by simp_all
  from Cons.prems(2)[of m] have e: "endIndex m = startIndex m + 42"
    "fullMatch m = slice (startIndex m) (startIndex m + 42) text" by simp_all
  from Cons.IH[OF d(3)] Cons.prems(2) have "matches_from (startIndex m + 42) text ms" by simp
  with d e show ?case by (simp add: occurs_at_def)
qed

lemma findAddressesInText_matches_from: "matches_from 0 text (findAddressesInText text)"
proof (rule matches_from_disjoint)
  show "disjoint_from 0 text (map startIndex (findAddressesInText text))"
    unfolding findAddressesInText_starts by (rule exec_all_FULL_disjoint)
next
  fix m assume "m \<in> set (findAddressesInText text)"
  from findAddressesInText_record[OF this]
  show "endIndex m = startIndex m + 42 \<and>
        fullMatch m = slice (startIndex m) (startIndex m + 42) text" by simp
qed

lemma slice_pieces:
  "i \<le> j \<Longrightarrow> j \<le> length t \<Longrightarrow> slice i j t @ drop j t = drop i t"
proof -
  assume a: "i \<le> j" "j \<le> length t"
  have "take (j - i) (drop i t) @ drop (j - i) (drop i t) = drop i t"
    by (rule append_take_drop_id)
  with a show ?thesis unfolding slice_def by simp
qed

lemma fragment_loop_text:
  assumes "matches_from i text ms" "i \<le> length text"
    and "\<And>m. m \<in> set ms \<Longrightarrow> Map_get cache (normalizeAddress (address m)) = None"
  shows "concat (map textContent (fragment_loop cache text i ms)) = drop i text"
  using assms
proof (induction ms arbitrary: i)
  case Nil
  then show ?case by (simp add: slice_def)
next
  case (Cons m ms)
  from Cons.prems(1) have w: "i \<le> startIndex m" "startIndex m \<le> endIndex m"
    "endIndex m \<le> length text" "fullMatch m = slice (startIndex m) (endIndex m) text"
    "matches_from (endIndex m) text ms" by simp_all
  from Cons.IH[OF w(5) w(3)] Cons.prems(3)
  have r: "concat (map textContent (fragment_loop cache text (endIndex m) ms))
             = drop (endIndex m) text" by simp
  from Cons.prems(3)[of m] have u: "textContent (createAddressElement cache (address m) (fullMatch m))
     = fullMatch m" by (simp add: textContent_create)
  have b: "concat (map textContent
      (if startIndex m > i then [Text (slice i (startIndex m) text)] else []))
        = slice i (startIndex m) text"
    using w(1) by (auto simp: slice_def)
  have "concat (map textContent (fragment_loop cache text i (m # ms)))
      = slice i (startIndex m) text @ slice (startIndex m) (endIndex m) text @ drop (endIndex m) text"
    using r u b w(4) by simp
  also have "\<dots> = slice i (startIndex m) text @ drop (startIndex m) text"
    using w(2,3) by (simp add: slice_pieces)
  also have "\<dots> = drop i text"
    using w(1,2,3) by (simp add: slice_pieces)
  finally show ?case .
qed

lemma fragment_loop_addresses:
  "wrapperAddresses (fragment_loop cache text i ms) = map address ms"
proof (induction ms arbitrary: i)
  case Nil
  then show ?case by simp
next
  case (Cons m ms)
  have "wrapperAddresses (fragment_loop cache text i (m # ms))
     = address m # wrapperAddresses (fragment_loop cache text (endIndex m) ms)"
    by (simp add: wrapperAddresses_append wrapperAddresses_create)
  with Cons show ?case by simp
qed

lemma wrap_pieces:
  "(if 0 < i then slice 0 i t else []) @ slice i (i + n) t @
   (if i + n < length t then slice (i + n) (length t) t else []) = t"
proof -
  have a: "(if 0 < i then slice 0 i t else []) = take i t"
    unfolding slice_def by simp
  have b: "(if i + n < length t then slice (i + n) (length t) t else []) = drop (i + n) t"
    unfolding slice_def by simp
  have c: "drop (i + n) t = drop n (drop i t)" by (simp add: add.commute)
  have "take n (drop i t) @ drop n (drop i t) = drop i t" by (rule append_take_drop_id)
  then have "take i t @ take n (drop i t) @ drop n (drop i t) = take i t @ drop i t"
    by (simp only:)
  also have "\<dots> = t" by (rule append_take_drop_id)
  finally show ?thesis unfolding a b c slice_def by (simp del: drop_drop)
qed

lemma wrapWithAddressElement_text:
  assumes "wrapWithAddressElement G chain t i n a = (c', ns)"
    and "\<And>x. x \<in> set (wrapperAddresses ns) \<Longrightarrow> Map_get (tagCache G) (normalizeAddress x) = None"
  shows "concat (map textContent ns) = t"
proof (cases chain)
  case Nil
  with assms(1) show ?thesis unfolding wrapWithAddressElement_def by auto
next
  case (Cons p up)
  let ?w = "createAddressElement (tagCache G) a (slice i (i + n) t)"
  from assms(1) Cons have ns: "ns = (if i > 0 then [Text (slice 0 i t)] else []) @ [?w] @
           (if i + n < length t then [Text (slice (i + n) (length t) t)] else [])"
    unfolding wrapWithAddressElement_def by auto
  have "a \<in> set (wrapperAddresses ns)"
    unfolding ns by (simp add: wrapperAddresses_append wrapperAddresses_create)
  from assms(2)[OF this] have u: "textContent ?w = slice i (i + n) t"
    by (rule textContent_create)
  have "concat (map textContent ns) = (if 0 < i then slice 0 i t else []) @ slice i (i + n) t @
   (if i + n < length t then slice (i + n) (length t) t else [])"
    unfolding ns using u by simp
  then show ?thesis by (simp only: wrap_pieces)
qed

lemma known_loop_text:
  assumes "known_loop matcher G chain t ms = Some (c', ns)"
    and "\<And>x. x \<in> set (wrapperAddresses ns) \<Longrightarrow> Map_get (tagCache G) (normalizeAddress x) = None"
  shows "concat (map textContent ns) = t"
  using assms
proof (induction ms)
  case Nil
  then show ?case by simp
next
  case (Cons m ms)
  obtain i ls where m: "m = (i, ls)" by (cases m)
  from Cons.prems(1) m consider
    (later) "known_loop matcher G chain t ms = Some (c', ns)"
    | (wrap) a where "wrapWithAddressElement G chain t i (sum_list ls) a = (c', ns)"
    by (auto split: option.splits if_splits)
  then show ?case
  proof cases
    case later
    from Cons.IH[OF this Cons.prems(2)] show ?thesis .
  next
    case wrap
    from wrapWithAddressElement_text[OF this Cons.prems(2)] show ?thesis .
  qed
qed

lemma processTruncatedAddresses_text:
  assumes "processTruncatedAddresses mS G chain t = (c', ns)"
    and "\<And>x. x \<in> set (wrapperAddresses ns) \<Longrightarrow> Map_get (tagCache G) (normalizeAddress x) = None"
  shows "concat (map textContent ns) = t"
proof -
  from assms(1) consider
    (same) "ns = [Text t]"
    | (wrap) i n a where "wrapWithAddressElement G chain t i n a = (c', ns)"
    | (known) matcher ms where "known_loop matcher G chain t ms = Some (c', ns)"
    unfolding processTruncatedAddresses_def Let_def
    by (auto split: option.splits if_splits prod.splits)
  then show ?thesis
  proof cases
    case same
    then show ?thesis by simp
  next
    case wrap
    from wrapWithAddressElement_text[OF this assms(2)] show ?thesis .
  next
    case known
    from known_loop_text[OF this assms(2)] show ?thesis .
  qed
qed

lemma processTextNode_text:
  assumes "\<And>x. x \<in> set (wrapperAddresses (snd (processTextNode mS G chain t))) \<Longrightarrow>
             Map_get (tagCache G) (normalizeAddress x) = None"
  shows "concat (map textContent (snd (processTextNode mS G chain t))) = t"
proof -
  obtain c' ns where r: "processTextNode mS G chain t = (c', ns)" by force
  with assms have u: "\<And>x. x \<in> set (wrapperAddresses ns) \<Longrightarrow>
             Map_get (tagCache G) (normalizeAddress x) = None" by simp
  from r consider
    (same) "ns = [Text t]"
    | (trunc) "processTruncatedAddresses mS G chain t = (c', ns)"
    | (full) "ns = fragment_loop (tagCache G) t 0 (findAddressesInText t)"
    unfolding processTextNode_def Let_def by (auto split: if_splits list.splits)
  then have "concat (map textContent ns) = t"
  proof cases
    case same
    then show ?thesis by simp
  next
    case trunc
    from processTruncatedAddresses_text[OF this u] show ?thesis .
  next
    case full
    have "concat (map textContent (fragment_loop (tagCache G) t 0 (findAddressesInText t)))
        = drop 0 t"
    proof (rule fragment_loop_text[OF findAddressesInText_matches_from])
      show "0 \<le> length t" by simp
    next
      fix m assume "m \<in> set (findAddressesInText t)"
      then have "address m \<in> set (wrapperAddresses ns)"
        unfolding full fragment_loop_addresses by simp
      from u[OF this] show "Map_get (tagCache G) (normalizeAddress (address m)) = None" .
    qed
    with full show ?thesis by simp
  qed
  with r show ?thesis by simp
qed

lemma processTextNode_addresses:
  assumes "findAddressesInText t \<noteq> []" "chain \<noteq> []"
  shows "wrapperAddresses (snd (processTextNode mS G chain t)) = map address (findAddressesInText t)"
  using assms unfolding processTextNode_def Let_def
  by (auto simp: fragment_loop_addresses split: list.splits)

text \<open>
  Claim C4. When no address element among the nodes that \<open>processTextNode\<close> puts in place
  of a text node has an entry in the tag cache, the text contents of these nodes,
  concatenated, are the text of the node, character for character. When the text has
  full addresses, the address elements are those of the matches of
  \<open>findAddressesInText\<close>, in order.
\<close>

theorem processTextNode_lossless:
  "((\<forall>a \<in> set (wrapperAddresses (snd (processTextNode matchShortAddress G chain t))).
        Map_get (tagCache G) (normalizeAddress a) = None) \<longrightarrow>
      concat (map textContent (snd (processTextNode matchShortAddress G chain t))) = t) \<and>
   (findAddressesInText t \<noteq> [] \<and> chain \<noteq> [] \<longrightarrow>
      wrapperAddresses (snd (processTextNode matchShortAddress G chain t))
        = map address (findAddressesInText t))"
  using processTextNode_text processTextNode_addresses by blast

theorem processTextNode_lossless_witness:
  "wrapperAddresses (snd (processTextNode (\<lambda>s k. None)
       \<lparr> knownAddresses = [], tagCache = [], enabled = True \<rparr>
       [\<lparr> tagName = ''p'', classList = [], attributes = [], isDocumentBody = False \<rparr>]
       ''pay 0xABC0000000000000000000000000000000000DEF now''))
     = [''0xabc0000000000000000000000000000000000def''] \<and>
   Map_get (tagCache \<lparr> knownAddresses = [], tagCache = [], enabled = True \<rparr>)
       (normalizeAddress ''0xabc0000000000000000000000000000000000def'') = None \<and>
   map textContent (snd (processTextNode (\<lambda>s k. None)
       \<lparr> knownAddresses = [], tagCache = [], enabled = True \<rparr>
       [\<lparr> tagName = ''p'', classList = [], attributes = [], isDocumentBody = False \<rparr>]
       ''pay 0xABC0000000000000000000000000000000000DEF now''))
     = [''pay '', ''0xABC0000000000000000000000000000000000DEF'', '' now''] \<and>
   concat (map textContent (snd (processTextNode (\<lambda>s k. None)
       \<lparr> knownAddresses = [], tagCache = [], enabled = True \<rparr>
       [\<lparr> tagName = ''p'', classList = [], attributes = [], isDocumentBody = False \<rparr>]
       ''pay 0xABC0000000000000000000000000000000000DEF now'')))
     = ''pay 0xABC0000000000000000000000000000000000DEF now''"
proof -
  let ?G = "\<lparr> knownAddresses = [], tagCache = [], enabled = True \<rparr>"
  let ?c = "[\<lparr> tagName = ''p'', classList = [], attributes = [], isDocumentBody = False \<rparr>]"
  let ?t = "''pay 0xABC0000000000000000000000000000000000DEF now''"
  have w: "wrapperAddresses (snd (processTextNode (\<lambda>s k. None) ?G ?c ?t))
     = [''0xabc0000000000000000000000000000000000def'']" by code_simp
  have u: "Map_get (tagCache ?G) (normalizeAddress ''0xabc0000000000000000000000000000000000def'')
     = None" by (simp add: Map_get_def)
  have m: "map textContent (snd (processTextNode (\<lambda>s k. None) ?G ?c ?t))
     = [''pay '', ''0xABC0000000000000000000000000000000000DEF'', '' now'']" by code_simp
  have h: "\<forall>a \<in> set (wrapperAddresses (snd (processTextNode (\<lambda>s k. None) ?G ?c ?t))).
        Map_get (tagCache ?G) (normalizeAddress a) = None"
    unfolding w using u by simp
  from processTextNode_lossless[of "\<lambda>s k. None" ?G ?c ?t] h
  have "concat (map textContent (snd (processTextNode (\<lambda>s k. None) ?G ?c ?t))) = ?t" by blast
  with w u m show ?thesis by (intro conjI)
qed


section \<open>Tags changed (content/index.ts, the \<open>TAGS_UPDATED\<close> listener)\<close>

text \<open>
  \<open>new Map(Object.entries(response.tags))\<close>, the two \<open>forEach\<close> loops over the elements
  of class \<open>wt-processed\<close> and \<open>wt-address-wrapper\<close>, and the listener. The second loop
  runs over the list of wrappers taken before it starts: a wrapper inside a wrapper
  leaves the document with the outer one. Replacing the document element by a text node
  throws. A body that is itself a wrapper is replaced by the text node of its
  \<open>data-address\<close>, and the document has no body any more: \<open>scanPage\<close> then returns at
  once when the extension is disabled, and throws at \<open>createTreeWalker\<close> otherwise. The
  listener's argument is the answer to \<open>GET_ALL_TAGS_DATA\<close>, \<open>None\<close> when it carries no
  \<open>tags\<close>.
\<close>

definition Map_from_entries :: "(string \<times> 'v) list \<Rightarrow> (string \<times> 'v) list" where
  "Map_from_entries entries = foldl (\<lambda>m kv. Map_set (fst kv) (snd kv) m) [] entries"

fun clearProcessed :: "node \<Rightarrow> node" where
  "clearProcessed (Text s) = Text s"
| "clearProcessed (Element tag cls attrs kids) =
     Element tag (filter (\<lambda>c. c \<noteq> ''wt-processed'') cls) attrs (map clearProcessed kids)"

fun unwrapAddresses :: "node \<Rightarrow> node" where
  "unwrapAddresses (Text s) = Text s"
| "unwrapAddresses (Element tag cls attrs kids) =
     (if contains cls ''wt-address-wrapper''
      then Text (case map_of attrs ''data-address'' of None \<Rightarrow> [] | Some a \<Rightarrow> a)
      else Element tag cls attrs (map unwrapAddresses kids))"

definition restoreDocument :: "document \<Rightarrow> document" where
  "restoreDocument doc =
     doc\<lparr> htmlClassList := filter (\<lambda>c. c \<noteq> ''wt-processed'') (htmlClassList doc),
          bodyClassList := filter (\<lambda>c. c \<noteq> ''wt-processed'') (bodyClassList doc),
          bodyChildNodes := map (\<lambda>n. unwrapAddresses (clearProcessed n)) (bodyChildNodes doc) \<rparr>"

datatype dom_error = HierarchyRequestError | TypeError

datatype no_body = Thrown dom_error | BodyReplaced globals string

definition onTagsUpdated ::
  "(string \<Rightarrow> string list \<Rightarrow> string option) \<Rightarrow> globals \<Rightarrow> document \<Rightarrow>
   (string \<times> tagData) list option \<Rightarrow> no_body + globals \<times> document" where
  "onTagsUpdated mS G doc response =
     (case response of
        None \<Rightarrow> Inr (G, doc)
      | Some tags \<Rightarrow>
          let cache = Map_from_entries tags;
              G' = G\<lparr> tagCache := cache, knownAddresses := map fst cache \<rparr>
          in if contains (htmlClassList doc) ''wt-address-wrapper''
             then Inl (Thrown HierarchyRequestError)
             else if contains (bodyClassList doc) ''wt-address-wrapper''
             then (if \<not> enabled G' then
                     Inl (BodyReplaced G'
                            (case getAttribute (documentBody doc) ''data-address'' of
                               None \<Rightarrow> []
                             | Some a \<Rightarrow> a))
                   else Inl (Thrown TypeError))
             else Inr (G', scanPage mS G' (restoreDocument doc)))"

text \<open>An element of the class, the node itself or below it.\<close>

fun hasClassAnywhere :: "string \<Rightarrow> node \<Rightarrow> bool" where
  "hasClassAnywhere c (Text s) = False"
| "hasClassAnywhere c (Element tag cls attrs kids) =
     (contains cls c \<or> list_ex (hasClassAnywhere c) kids)"

lemma clearProcessed_no_marker: "\<not> hasClassAnywhere ''wt-processed'' (clearProcessed n)"
  by (induction n) (auto simp: contains_def list_ex_iff)

lemma unwrapAddresses_keeps_no_marker:
  "\<not> hasClassAnywhere c n \<Longrightarrow> \<not> hasClassAnywhere c (unwrapAddresses n)"
  by (induction n) (auto simp: list_ex_iff)

lemma unwrapAddresses_no_wrapper: "\<not> hasClassAnywhere ''wt-address-wrapper'' (unwrapAddresses n)"
  by (induction n) (auto simp: list_ex_iff)

lemma restore_created:
  "unwrapAddresses (clearProcessed (createAddressElement cache a d)) = Text a"
  by (simp add: createAddressElement_def contains_def split: option.splits)


lemma toLowerCase_char_lower:
  assumes "c \<in> set ''0123456789abcdefx''"
  shows "toLowerCase_char c = c"
  using assms by (simp, elim disjE; hypsubst; simp add: toLowerCase_char_def upperCaseLetters_def lowerCaseLetters_def)

lemma lower_hex_is_hex: "c \<in> set ''0123456789abcdef'' \<Longrightarrow> isHexDigit c"
  unfolding isHexDigit_def by (simp, elim disjE; hypsubst; simp)

lemma lower_hex_is_lower: "c \<in> set ''0123456789abcdef'' \<Longrightarrow> toLowerCase_char c = c"
  by (simp, elim disjE; hypsubst; simp add: toLowerCase_char_def upperCaseLetters_def lowerCaseLetters_def)

lemma canonical_parts:
  assumes "is_canonical_address a"
  obtains ds where "a = CHR ''0'' # CHR ''x'' # ds" "length ds = 40"
    "\<And>c. c \<in> set ds \<Longrightarrow> c \<in> set ''0123456789abcdef''"
proof -
  from assms have len: "length a = 42" and t: "take 2 a = ''0x''"
    and h: "list_all (\<lambda>c. c \<in> set ''0123456789abcdef'') (drop 2 a)"
    unfolding is_canonical_address_def by blast+
  from len obtain c r where a1: "a = c # r" by (cases a) simp_all
  with len obtain d ds where a2: "r = d # ds" by (cases r) simp_all
  from t a1 a2 have cd: "c = CHR ''0''" "d = CHR ''x''" by simp_all
  have dr: "drop 2 a = ds" unfolding a1 a2 by simp
  from h have hs: "\<And>c. c \<in> set ds \<Longrightarrow> c \<in> set ''0123456789abcdef''"
    unfolding dr list_all_iff by blast
  from len a1 a2 have "length ds = 40" by simp
  with a1 a2 cd hs that show ?thesis by blast
qed

lemma canonical_lower:
  assumes "is_canonical_address a"
  shows "toLowerCase a = a"
proof -
  from canonical_parts[OF assms] obtain ds where a: "a = CHR ''0'' # CHR ''x'' # ds"
    and h: "\<And>c. c \<in> set ds \<Longrightarrow> c \<in> set ''0123456789abcdef''" by blast
  have "map toLowerCase_char ds = ds"
    by (rule map_idI) (rule lower_hex_is_lower, rule h)
  moreover have "toLowerCase_char CHR ''0'' = CHR ''0''" "toLowerCase_char CHR ''x'' = CHR ''x''"
    by (simp_all add: toLowerCase_char_def upperCaseLetters_def lowerCaseLetters_def)
  ultimately show ?thesis unfolding toLowerCase_def a by simp
qed

lemma canonical_full:
  assumes "is_canonical_address a"
  shows "is_full_address a"
proof -
  from canonical_parts[OF assms] obtain ds where a: "a = CHR ''0'' # CHR ''x'' # ds"
    and l: "length ds = 40"
    and h: "\<And>c. c \<in> set ds \<Longrightarrow> c \<in> set ''0123456789abcdef''" by blast
  have "list_all isHexDigit ds"
    unfolding list_all_iff using h lower_hex_is_hex by blast
  with l show ?thesis unfolding is_full_address_def isX_def a by simp
qed

lemma findAddressesInText_canonical:
  assumes "is_canonical_address a"
  shows "findAddressesInText a =
           [\<lparr> address = a, fullMatch = a, startIndex = 0, endIndex = 42, isTruncated = False \<rparr>]"
proof -
  from assms have len: "length a = 42" unfolding is_canonical_address_def by simp
  have occ: "occurs_at a 0"
    unfolding occurs_at_def slice_def using canonical_full[OF assms] len by simp
  have "map fst (regex_exec_all FULL_ADDRESS_REGEX a 0) = [0]"
  proof (rule exec_all_FULL_exact)
    show "disjoint_from 0 a [0]" using occ by simp
  next
    fix p assume "occurs_at a p"
    with len show "p \<in> set [0]" unfolding occurs_at_def by simp
  qed
  then obtain ls where e: "regex_exec_all FULL_ADDRESS_REGEX a 0 = [(0, ls)]"
    by (cases "regex_exec_all FULL_ADDRESS_REGEX a 0") auto
  then have "(0, ls) \<in> set (regex_exec_all FULL_ADDRESS_REGEX a 0)" by simp
  from exec_all_FULL_lens[OF this] have ls: "ls = [1, 1, 40]" .
  have s: "slice 0 42 a = a" unfolding slice_def using len by simp
  show ?thesis
    unfolding findAddressesInText_def e ls
    by (simp add: s len Let_def normalizeAddress_def canonical_lower[OF assms])
qed

lemma processTextNode_canonical:
  assumes "is_canonical_address a"
  shows "processTextNode mS G (p # up) a
           = (markProcessed p # up, [createAddressElement (tagCache G) a a])"
proof -
  from assms have len: "length a = 42" unfolding is_canonical_address_def by simp
  show ?thesis
    unfolding processTextNode_def findAddressesInText_canonical[OF assms]
    by (simp add: len)
qed

text \<open>
  Claim C5. When the answer carries tags (and neither the document element nor the body
  is itself an address wrapper), the listener replaces the cache, restores the document
  and returns the scan of the restored document under the new cache: the rescan is the
  scan of the restored text. In the restored document no element has the class
  \<open>wt-processed\<close> and none the class \<open>wt-address-wrapper\<close>; an element built by
  \<open>createAddressElement\<close> for an address has become the text node of that address; and a
  text node that is a canonical address is wrapped again, for the same address, when the
  scan processes it.
\<close>

theorem tags_updated_restores_and_rescans:
  "(response = Some tags \<and> \<not> contains (htmlClassList doc) ''wt-address-wrapper'' \<and>
    \<not> contains (bodyClassList doc) ''wt-address-wrapper'' \<longrightarrow>
      onTagsUpdated matchShortAddress G doc response =
        Inr (G\<lparr> tagCache := Map_from_entries tags,
                knownAddresses := map fst (Map_from_entries tags) \<rparr>,
             scanPage matchShortAddress
               (G\<lparr> tagCache := Map_from_entries tags,
                   knownAddresses := map fst (Map_from_entries tags) \<rparr>)
               (restoreDocument doc))) \<and>
   \<not> contains (htmlClassList (restoreDocument doc)) ''wt-processed'' \<and>
   \<not> contains (bodyClassList (restoreDocument doc)) ''wt-processed'' \<and>
   (\<forall>n \<in> set (bodyChildNodes (restoreDocument doc)).
      \<not> hasClassAnywhere ''wt-processed'' n \<and> \<not> hasClassAnywhere ''wt-address-wrapper'' n) \<and>
   unwrapAddresses (clearProcessed (createAddressElement cache a d)) = Text a \<and>
   (is_canonical_address a \<longrightarrow>
      processTextNode matchShortAddress G' (parent # up) a
        = (markProcessed parent # up, [createAddressElement (tagCache G') a a]))"
proof (intro conjI impI ballI)
  assume "response = Some tags \<and> \<not> contains (htmlClassList doc) ''wt-address-wrapper'' \<and>
    \<not> contains (bodyClassList doc) ''wt-address-wrapper''"
  then show "onTagsUpdated matchShortAddress G doc response =
        Inr (G\<lparr> tagCache := Map_from_entries tags,
                knownAddresses := map fst (Map_from_entries tags) \<rparr>,
             scanPage matchShortAddress
               (G\<lparr> tagCache := Map_from_entries tags,
                   knownAddresses := map fst (Map_from_entries tags) \<rparr>)
               (restoreDocument doc))"
    unfolding onTagsUpdated_def by (simp add: Let_def)
next
  show "\<not> contains (htmlClassList (restoreDocument doc)) ''wt-processed''"
    unfolding restoreDocument_def contains_def by simp
next
  show "\<not> contains (bodyClassList (restoreDocument doc)) ''wt-processed''"
    unfolding restoreDocument_def contains_def by simp
next
  fix n assume "n \<in> set (bodyChildNodes (restoreDocument doc))"
  then obtain n0 where n: "n = unwrapAddresses (clearProcessed n0)"
    unfolding restoreDocument_def by auto
  show "\<not> hasClassAnywhere ''wt-processed'' n"
    unfolding n by (rule unwrapAddresses_keeps_no_marker) (rule clearProcessed_no_marker)
  show "\<not> hasClassAnywhere ''wt-address-wrapper'' n"
    unfolding n by (rule unwrapAddresses_no_wrapper)
next
  show "unwrapAddresses (clearProcessed (createAddressElement cache a d)) = Text a"
    by (rule restore_created)
next
  assume "is_canonical_address a"
  then show "processTextNode matchShortAddress G' (parent # up) a
        = (markProcessed parent # up, [createAddressElement (tagCache G') a a])"
    by (rule processTextNode_canonical)
qed

theorem tags_updated_restores_and_rescans_witness:
  "onTagsUpdated (\<lambda>s k. None) \<lparr> knownAddresses = [], tagCache = [], enabled = True \<rparr>
     \<lparr> htmlClassList = [], bodyClassList = [], bodyAttributes = [],
       bodyChildNodes =
         [Element ''p'' [''wt-processed''] []
            [Text ''pay '',
             Element ''span'' [''wt-address-wrapper'']
               [(''data-address'', ''0xabc0000000000000000000000000000000000def'')]
               [Element ''span'' [''wt-address-text''] []
                  [Text ''0xABC0000000000000000000000000000000000DEF'']],
             Text '' now'']] \<rparr>
     (Some [(''0xabc0000000000000000000000000000000000def'', (''Alice'', None))])
   = Inr (\<lparr> knownAddresses = [''0xabc0000000000000000000000000000000000def''],
            tagCache = [(''0xabc0000000000000000000000000000000000def'', (''Alice'', None))],
            enabled = True \<rparr>,
          \<lparr> htmlClassList = [], bodyClassList = [], bodyAttributes = [],
            bodyChildNodes =
              [Element ''p'' [''wt-processed''] []
                 [Text ''pay '',
                  Element ''span'' [''wt-address-wrapper'', ''wt-has-tag'']
                    [(''data-address'', ''0xabc0000000000000000000000000000000000def'')]
                    [Element ''span'' [''wt-tag-label''] [] [Text ''Alice''],
                     Element ''span'' [''wt-tag-short-address''] [] [Text '' (0xabc0)'']],
                  Text '' now'']] \<rparr>) \<and>
   restoreDocument
     \<lparr> htmlClassList = [], bodyClassList = [], bodyAttributes = [],
       bodyChildNodes =
         [Element ''p'' [''wt-processed''] []
            [Text ''pay '',
             Element ''span'' [''wt-address-wrapper'']
               [(''data-address'', ''0xabc0000000000000000000000000000000000def'')]
               [Element ''span'' [''wt-address-text''] []
                  [Text ''0xABC0000000000000000000000000000000000DEF'']],
             Text '' now'']] \<rparr>
   = \<lparr> htmlClassList = [], bodyClassList = [], bodyAttributes = [],
       bodyChildNodes =
         [Element ''p'' [] []
            [Text ''pay '', Text ''0xabc0000000000000000000000000000000000def'',
             Text '' now'']] \<rparr> \<and>
   is_canonical_address ''0xabc0000000000000000000000000000000000def'' \<and>
   processTextNode (\<lambda>s k. None)
     \<lparr> knownAddresses = [''0xabc0000000000000000000000000000000000def''],
       tagCache = [(''0xabc0000000000000000000000000000000000def'', (''Alice'', None))],
       enabled = True \<rparr>
     [\<lparr> tagName = ''p'', classList = [], attributes = [], isDocumentBody = False \<rparr>]
     ''0xabc0000000000000000000000000000000000def''
   = ([\<lparr> tagName = ''p'', classList = [''wt-processed''], attributes = [],
         isDocumentBody = False \<rparr>],
      [Element ''span'' [''wt-address-wrapper'', ''wt-has-tag'']
         [(''data-address'', ''0xabc0000000000000000000000000000000000def'')]
         [Element ''span'' [''wt-tag-label''] [] [Text ''Alice''],
          Element ''span'' [''wt-tag-short-address''] [] [Text '' (0xabc0)'']]])"
proof -
  let ?G = "\<lparr> knownAddresses = [], tagCache = [], enabled = True \<rparr>"
  let ?tags = "[(''0xabc0000000000000000000000000000000000def'', (''Alice'', None :: string option))]"
  let ?G' = "\<lparr> knownAddresses = [''0xabc0000000000000000000000000000000000def''],
            tagCache = ?tags, enabled = True \<rparr>"
  let ?doc = "\<lparr> htmlClassList = [], bodyClassList = [], bodyAttributes = [],
       bodyChildNodes =
         [Element ''p'' [''wt-processed''] []
            [Text ''pay '',
             Element ''span'' [''wt-address-wrapper'']
               [(''data-address'', ''0xabc0000000000000000000000000000000000def'')]
               [Element ''span'' [''wt-address-text''] []
                  [Text ''0xABC0000000000000000000000000000000000DEF'']],
             Text '' now'']] \<rparr>"
  let ?a = "''0xabc0000000000000000000000000000000000def''"
  let ?p = "\<lparr> tagName = ''p'', classList = [], attributes = [], isDocumentBody = False \<rparr>"
  have g: "?G\<lparr> tagCache := Map_from_entries ?tags,
                knownAddresses := map fst (Map_from_entries ?tags) \<rparr> = ?G'"
    by (simp add: Map_from_entries_def)
  have r: "restoreDocument ?doc = \<lparr> htmlClassList = [], bodyClassList = [], bodyAttributes = [],
       bodyChildNodes =
         [Element ''p'' [] []
            [Text ''pay '', Text ''0xabc0000000000000000000000000000000000def'',
             Text '' now'']] \<rparr>" by code_simp
  have s: "scanPage (\<lambda>s k. None) ?G' (restoreDocument ?doc)
     = \<lparr> htmlClassList = [], bodyClassList = [], bodyAttributes = [],
            bodyChildNodes =
              [Element ''p'' [''wt-processed''] []
                 [Text ''pay '',
                  Element ''span'' [''wt-address-wrapper'', ''wt-has-tag'']
                    [(''data-address'', ''0xabc0000000000000000000000000000000000def'')]
                    [Element ''span'' [''wt-tag-label''] [] [Text ''Alice''],
                     Element ''span'' [''wt-tag-short-address''] [] [Text '' (0xabc0)'']],
                  Text '' now'']] \<rparr>" by code_simp
  have c: "is_canonical_address ?a" by code_simp
  have w: "\<not> contains (htmlClassList ?doc) ''wt-address-wrapper''"
    "\<not> contains (bodyClassList ?doc) ''wt-address-wrapper''" by (simp_all add: contains_def)
  have m: "markProcessed ?p = \<lparr> tagName = ''p'', classList = [''wt-processed''], attributes = [],
         isDocumentBody = False \<rparr>" by (simp add: markProcessed_def contains_def)
  have e: "createAddressElement (tagCache ?G') ?a ?a =
      Element ''span'' [''wt-address-wrapper'', ''wt-has-tag'']
         [(''data-address'', ''0xabc0000000000000000000000000000000000def'')]
         [Element ''span'' [''wt-tag-label''] [] [Text ''Alice''],
          Element ''span'' [''wt-tag-short-address''] [] [Text '' (0xabc0)'']]" by code_simp
  note t = tags_updated_restores_and_rescans[where response = "Some ?tags" and tags = ?tags
      and doc = ?doc and matchShortAddress = "\<lambda>s k. None" and G = ?G and a = ?a
      and G' = ?G' and parent = ?p and up = "[]"]
  from t w have "onTagsUpdated (\<lambda>s k. None) ?G ?doc (Some ?tags) =
        Inr (?G\<lparr> tagCache := Map_from_entries ?tags,
                knownAddresses := map fst (Map_from_entries ?tags) \<rparr>,
             scanPage (\<lambda>s k. None)
               (?G\<lparr> tagCache := Map_from_entries ?tags,
                   knownAddresses := map fst (Map_from_entries ?tags) \<rparr>)
               (restoreDocument ?doc))" by blast
  then have one: "onTagsUpdated (\<lambda>s k. None) ?G ?doc (Some ?tags) =
        Inr (?G', scanPage (\<lambda>s k. None) ?G' (restoreDocument ?doc))" by (simp only: g)
  from t c have "processTextNode (\<lambda>s k. None) ?G' [?p] ?a
        = (markProcessed ?p # [], [createAddressElement (tagCache ?G') ?a ?a])" by blast
  then have two: "processTextNode (\<lambda>s k. None) ?G' [?p] ?a =
     ([\<lparr> tagName = ''p'', classList = [''wt-processed''], attributes = [],
         isDocumentBody = False \<rparr>],
      [Element ''span'' [''wt-address-wrapper'', ''wt-has-tag'']
         [(''data-address'', ''0xabc0000000000000000000000000000000000def'')]
         [Element ''span'' [''wt-tag-label''] [] [Text ''Alice''],
          Element ''span'' [''wt-tag-short-address''] [] [Text '' (0xabc0)'']]])"
    by (simp only: m e)
  from one s have one': "onTagsUpdated (\<lambda>s k. None) ?G ?doc (Some ?tags) = Inr (?G',
     \<lparr> htmlClassList = [], bodyClassList = [], bodyAttributes = [],
            bodyChildNodes =
              [Element ''p'' [''wt-processed''] []
                 [Text ''pay '',
                  Element ''span'' [''wt-address-wrapper'', ''wt-has-tag'']
                    [(''data-address'', ''0xabc0000000000000000000000000000000000def'')]
                    [Element ''span'' [''wt-tag-label''] [] [Text ''Alice''],
                     Element ''span'' [''wt-tag-short-address''] [] [Text '' (0xabc0)'']],
                  Text '' now'']] \<rparr>)" by (simp only:)
  from one' r c two show ?thesis by (intro conjI)
qed

end
